theory Spec2Isabelle
  imports Complex_Main
begin

section \<open>JavaScript values and array primitives used by the simulator\<close>

text \<open>
  The page identifiers that \<^verbatim>\<open>computeSteps\<close> receives from the page are the values produced
  by \<^verbatim>\<open>parsePages\<close>: numbers and strings, never \<^verbatim>\<open>NaN\<close> (a token whose \<^verbatim>\<open>Number\<close> is \<^verbatim>\<open>NaN\<close>
  is kept as the string). On such values \<^verbatim>\<open>Array.prototype.includes\<close>, \<^verbatim>\<open>indexOf\<close>,
  \<^verbatim>\<open>lastIndexOf\<close> and \<^verbatim>\<open>Map\<close> keys all agree with one equality, so such a page identifier is
  a value of an arbitrary type \<open>'a\<close> with HOL equality. \<^verbatim>\<open>undefined\<close> and \<^verbatim>\<open>null\<close>, which are
  never pages, are \<open>None\<close>.

  Pages among which \<^verbatim>\<open>NaN\<close> can occur are values of \<open>'a page\<close>, further down: there
  \<^verbatim>\<open>includes\<close> and \<^verbatim>\<open>Map\<close> find \<^verbatim>\<open>NaN\<close>, and \<^verbatim>\<open>indexOf\<close> and \<^verbatim>\<open>lastIndexOf\<close>, which compare
  with \<^verbatim>\<open>===\<close>, do not.

  Numbers that take part in comparisons with \<^verbatim>\<open>Infinity\<close> are \<open>jsnum\<close>.
\<close>

datatype jsnum = NegInfinity | Num int | Infinity

fun lt :: "jsnum \<Rightarrow> jsnum \<Rightarrow> bool" where
  "lt (Num a) (Num b) = (a < b)"
| "lt NegInfinity NegInfinity = False"
| "lt NegInfinity _ = True"
| "lt _ NegInfinity = False"
| "lt Infinity _ = False"
| "lt (Num _) Infinity = True"

text \<open>\<^verbatim>\<open>xs.includes(x)\<close>\<close>

definition js_includes :: "'a list \<Rightarrow> 'a \<Rightarrow> bool" where
  "js_includes xs x = (x \<in> set xs)"

text \<open>\<^verbatim>\<open>xs.indexOf(x)\<close>: the first index holding \<open>x\<close>, or \<open>-1\<close>.\<close>

fun js_indexOf :: "'a list \<Rightarrow> 'a \<Rightarrow> int" where
  "js_indexOf [] x = -1"
| "js_indexOf (y # ys) x =
     (if y = x then 0
      else (let r = js_indexOf ys x in if r = -1 then -1 else r + 1))"

text \<open>\<^verbatim>\<open>xs.lastIndexOf(x)\<close>: the last index holding \<open>x\<close>, or \<open>-1\<close>.\<close>

fun js_lastIndexOf :: "'a list \<Rightarrow> 'a \<Rightarrow> int" where
  "js_lastIndexOf [] x = -1"
| "js_lastIndexOf (y # ys) x =
     (let r = js_lastIndexOf ys x in
      if r \<noteq> -1 then r + 1 else if y = x then 0 else -1)"

text \<open>
  \<^verbatim>\<open>xs.indexOf(v)\<close> where \<open>v\<close> may be \<^verbatim>\<open>undefined\<close> or \<^verbatim>\<open>null\<close>: the arrays hold pages
  only, so such a \<open>v\<close> is not found.
\<close>

definition indexOf_opt :: "'a list \<Rightarrow> 'a option \<Rightarrow> int" where
  "indexOf_opt xs v = (case v of None \<Rightarrow> -1 | Some p \<Rightarrow> js_indexOf xs p)"

text \<open>
  \<^verbatim>\<open>xs.splice(start, deleteCount, ...items)\<close>, the array afterwards: a negative \<open>start\<close>
  counts from the end, and both \<open>start\<close> and \<open>deleteCount\<close> are clamped to the array.
\<close>

definition js_splice :: "'a list \<Rightarrow> int \<Rightarrow> int \<Rightarrow> 'a list \<Rightarrow> 'a list" where
  "js_splice xs start deleteCount items =
     (let len = int (length xs);
          actualStart = (if start < 0 then max (len + start) 0 else min start len);
          actualDeleteCount = min (max deleteCount 0) (len - actualStart)
      in take (nat actualStart) xs @ items @ drop (nat (actualStart + actualDeleteCount)) xs)"

text \<open>\<^verbatim>\<open>xs.shift()\<close>: the removed first element (\<^verbatim>\<open>undefined\<close> on an empty array) and the rest.\<close>

definition js_shift :: "'a list \<Rightarrow> 'a option \<times> 'a list" where
  "js_shift xs = (case xs of [] \<Rightarrow> (None, []) | y # ys \<Rightarrow> (Some y, ys))"

text \<open>\<^verbatim>\<open>m.delete(k)\<close> on a \<^verbatim>\<open>Map\<close> whose keys are pages.\<close>

definition map_delete :: "'a option \<Rightarrow> ('a \<Rightarrow> nat option) \<Rightarrow> ('a \<Rightarrow> nat option)" where
  "map_delete k m = (case k of None \<Rightarrow> m | Some p \<Rightarrow> m(p := None))"

text \<open>\<^verbatim>\<open>Math.min(...xs)\<close> and \<^verbatim>\<open>Math.max(...xs)\<close>.\<close>

definition Math_min :: "jsnum list \<Rightarrow> jsnum" where
  "Math_min xs = fold (\<lambda>x m. if lt x m then x else m) xs Infinity"

definition Math_max :: "jsnum list \<Rightarrow> jsnum" where
  "Math_max xs = fold (\<lambda>x m. if lt m x then x else m) xs NegInfinity"

text \<open>\<^verbatim>\<open>xs.forEach((x, i) => ...)\<close> on a dense array, threading the variables the callback mutates.\<close>

fun forEach :: "('a \<Rightarrow> nat \<Rightarrow> 's \<Rightarrow> 's) \<Rightarrow> 'a list \<Rightarrow> nat \<Rightarrow> 's \<Rightarrow> 's" where
  "forEach f [] i s = s"
| "forEach f (x # xs) i s = forEach f xs (Suc i) (f x i s)"


section \<open>\<^verbatim>\<open>script.js\<close>: \<^verbatim>\<open>clampFrames\<close> and \<^verbatim>\<open>computeSteps\<close>\<close>

text \<open>
  A JavaScript number as \<^verbatim>\<open>clampFrames\<close> meets it: \<^verbatim>\<open>NaN\<close>, a finite value or an infinity.
  The argument of the model is the number \<^verbatim>\<open>Number(val)\<close>; how the text of the field is
  converted (and rounded to a double) is not modelled. \<^verbatim>\<open>computeSteps\<close>, below, is modelled
  for the integer frame counts; \<^verbatim>\<open>clampFrames\<close> gives \<^verbatim>\<open>Infinity\<close> only for \<^verbatim>\<open>Infinity\<close>.
\<close>

datatype number = NotANumber | Finite real | PlusInfinity | MinusInfinity

text \<open>\<^verbatim>\<open>x || 0\<close> on a number: \<^verbatim>\<open>NaN\<close> and zero are falsy.\<close>

definition or_zero :: "number \<Rightarrow> number" where
  "or_zero x = (if x = NotANumber \<or> x = Finite 0 then Finite 0 else x)"

text \<open>\<^verbatim>\<open>Math.floor(x)\<close>\<close>

definition Math_floor :: "number \<Rightarrow> number" where
  "Math_floor x = (case x of Finite r \<Rightarrow> Finite (of_int \<lfloor>r\<rfloor>) | _ \<Rightarrow> x)"

text \<open>\<^verbatim>\<open>Math.max(a, b)\<close>\<close>

fun Math_max2 :: "number \<Rightarrow> number \<Rightarrow> number" where
  "Math_max2 NotANumber _ = NotANumber"
| "Math_max2 _ NotANumber = NotANumber"
| "Math_max2 PlusInfinity _ = PlusInfinity"
| "Math_max2 _ PlusInfinity = PlusInfinity"
| "Math_max2 MinusInfinity b = b"
| "Math_max2 a MinusInfinity = a"
| "Math_max2 (Finite x) (Finite y) = Finite (max x y)"

text \<open>
  \<^verbatim>\<open>clampFrames(val)\<close>: \<^verbatim>\<open>n = Math.floor(Number(val) || 0)\<close>, then \<^verbatim>\<open>Math.max(1, n)\<close>.
\<close>

definition clampFrames :: "number \<Rightarrow> number" where
  "clampFrames numberOfVal =
     (let n = Math_floor (or_zero numberOfVal) in Math_max2 (Finite 1) n)"

text \<open>
  The \<^verbatim>\<open>info\<close> template strings, with the interpolated page kept as a value
  (\<open>None\<close> prints as \<^verbatim>\<open>undefined\<close> or \<^verbatim>\<open>null\<close>).
\<close>

datatype 'a info =
    Hit
  | PlacedIntoFreeSlot
  | FIFOReplaced "'a option"
  | LRUReplaced "'a option"
  | OptimalReplaced "'a option"

text \<open>A step object; \<open>memory_clone\<close> is its \<^verbatim>\<open>memory\<close> field, the result of \<^verbatim>\<open>cloneMemory()\<close>.\<close>

record 'a step =
  index :: nat
  page :: 'a
  memory_clone :: "'a list"
  hit :: bool
  replacedIndex :: int
  info :: "'a info"

text \<open>The variables of \<^verbatim>\<open>computeSteps\<close> that the callback mutates.\<close>

record 'a state =
  memory :: "'a list"
  fifoQueue :: "'a list"
  lastUsed :: "'a \<Rightarrow> nat option"
  result :: "'a step list"
  faults :: nat
  hits :: nat

text \<open>The returned object \<^verbatim>\<open>{ steps, totals: { faults, hits } }\<close>.\<close>

record 'a outcome =
  steps :: "'a step list"
  totals_faults :: nat
  totals_hits :: nat

text \<open>\<^verbatim>\<open>meta.lastUsed.has(p) ? meta.lastUsed.get(p) : -1\<close>\<close>

definition last_of :: "('a \<Rightarrow> nat option) \<Rightarrow> 'a \<Rightarrow> int" where
  "last_of lu p = (case lu p of Some j \<Rightarrow> int j | None \<Rightarrow> -1)"

text \<open>The LRU scan \<^verbatim>\<open>for (const p of memory)\<close> over \<open>(oldestPage, oldestIndex)\<close>.\<close>

fun lru_scan :: "('a \<Rightarrow> nat option) \<Rightarrow> 'a list \<Rightarrow> 'a option \<times> jsnum \<Rightarrow> 'a option \<times> jsnum" where
  "lru_scan lu [] acc = acc"
| "lru_scan lu (p # ps) (oldestPage, oldestIndex) =
     (let last = last_of lu p
      in lru_scan lu ps
           (if lt (Num last) oldestIndex then (Some p, Num last) else (oldestPage, oldestIndex)))"

text \<open>The Optimal scan \<^verbatim>\<open>memory.forEach(m => ...)\<close> over \<open>(farthest, victim)\<close>.\<close>

fun optimal_scan :: "'a list \<Rightarrow> 'a list \<Rightarrow> jsnum \<times> 'a option \<Rightarrow> jsnum \<times> 'a option" where
  "optimal_scan future [] acc = acc"
| "optimal_scan future (m # ms) (farthest, victim) =
     (let nextUse = js_indexOf future m
      in optimal_scan future ms
           (if nextUse = -1 then (Infinity, Some m)
            else if lt farthest (Num nextUse) then (Num nextUse, Some m)
            else (farthest, victim)))"

text \<open>The callback of \<^verbatim>\<open>pages.forEach\<close> in \<^verbatim>\<open>computeSteps\<close>.\<close>

definition access :: "'a list \<Rightarrow> int \<Rightarrow> string \<Rightarrow> 'a \<Rightarrow> nat \<Rightarrow> 'a state \<Rightarrow> 'a state" where
  "access pages frameCount algo pg i s =
    (if js_includes (memory s) pg then
       s\<lparr> hits := hits s + 1,
          lastUsed := (lastUsed s)(pg \<mapsto> i),
          result := result s @
            [\<lparr> index = i, page = pg, memory_clone = memory s, hit = True,
               replacedIndex = -1, info = Hit \<rparr>] \<rparr>
     else if int (length (memory s)) < frameCount then
       (let memory' = memory s @ [pg] in
        s\<lparr> faults := faults s + 1,
           memory := memory',
           fifoQueue := fifoQueue s @ [pg],
           lastUsed := (lastUsed s)(pg \<mapsto> i),
           result := result s @
             [\<lparr> index = i, page = pg, memory_clone = memory', hit = False,
                replacedIndex = int (length memory') - 1, info = PlacedIntoFreeSlot \<rparr>] \<rparr>)
     else if algo = ''fifo'' then
       (let (old, queue) = js_shift (fifoQueue s);
            replaceIndex = indexOf_opt (memory s) old;
            memory' = js_splice (memory s) replaceIndex 1 [pg]
        in s\<lparr> faults := faults s + 1,
              memory := memory',
              fifoQueue := queue @ [pg],
              lastUsed := map_delete old ((lastUsed s)(pg \<mapsto> i)),
              result := result s @
                [\<lparr> index = i, page = pg, memory_clone = memory', hit = False,
                   replacedIndex = replaceIndex, info = FIFOReplaced old \<rparr>] \<rparr>)
     else if algo = ''lru'' then
       (let (oldestPage, oldestIndex) = lru_scan (lastUsed s) (memory s) (None, Infinity);
            replaceIndex = indexOf_opt (memory s) oldestPage;
            memory' = js_splice (memory s) replaceIndex 1 [pg];
            qidx = indexOf_opt (fifoQueue s) oldestPage
        in s\<lparr> faults := faults s + 1,
              memory := memory',
              lastUsed := (map_delete oldestPage (lastUsed s))(pg \<mapsto> i),
              fifoQueue := (if qidx \<noteq> -1 then js_splice (fifoQueue s) qidx 1 [pg]
                            else fifoQueue s),
              result := result s @
                [\<lparr> index = i, page = pg, memory_clone = memory', hit = False,
                   replacedIndex = replaceIndex, info = LRUReplaced oldestPage \<rparr>] \<rparr>)
     else if algo = ''optimal'' then
       (let future = drop (i + 1) pages;
            (farthest, victim) = optimal_scan future (memory s) (Num (-1), None);
            replaceIndex = indexOf_opt (memory s) victim;
            memory' = js_splice (memory s) replaceIndex 1 [pg];
            qidx = indexOf_opt (fifoQueue s) victim
        in s\<lparr> faults := faults s + 1,
              memory := memory',
              lastUsed := (map_delete victim (lastUsed s))(pg \<mapsto> i),
              fifoQueue := (if qidx \<noteq> -1 then js_splice (fifoQueue s) qidx 1 [pg]
                            else fifoQueue s),
              result := result s @
                [\<lparr> index = i, page = pg, memory_clone = memory', hit = False,
                   replacedIndex = replaceIndex, info = OptimalReplaced victim \<rparr>] \<rparr>)
     else s\<lparr> faults := faults s + 1 \<rparr>)"

definition init :: "'a state" where
  "init = \<lparr> memory = [], fifoQueue = [], lastUsed = Map.empty, result = [],
            faults = 0, hits = 0 \<rparr>"

definition computeSteps :: "'a list \<Rightarrow> int \<Rightarrow> string \<Rightarrow> 'a outcome" where
  "computeSteps pages frameCount algo =
     (let s = forEach (access pages frameCount algo) pages 0 init
      in \<lparr> steps = result s, totals_faults = faults s, totals_hits = hits s \<rparr>)"


section \<open>Pages that can be \<^verbatim>\<open>NaN\<close>\<close>

text \<open>
  A page is \<^verbatim>\<open>NaN\<close> or a value that equals itself. \<^verbatim>\<open>simulate\<close> gets its pages from
  \<^verbatim>\<open>split(" ").map(Number)\<close>, which gives \<^verbatim>\<open>NaN\<close> for a token that is not a number;
  \<^verbatim>\<open>computeSteps\<close> gets a \<^verbatim>\<open>NaN\<close> only when it is called with one directly.
\<close>

datatype 'a page = NaN | Val 'a

text \<open>\<^verbatim>\<open>x === y\<close> on pages: \<^verbatim>\<open>NaN\<close> equals nothing, itself included.\<close>

definition strict_equal :: "'a page \<Rightarrow> 'a page \<Rightarrow> bool" where
  "strict_equal x y = (x = y \<and> x \<noteq> NaN)"

text \<open>\<^verbatim>\<open>xs.indexOf(x)\<close> and \<^verbatim>\<open>xs.lastIndexOf(x)\<close>, which compare with \<^verbatim>\<open>===\<close>.\<close>

fun strict_indexOf :: "'a page list \<Rightarrow> 'a page \<Rightarrow> int" where
  "strict_indexOf [] x = -1"
| "strict_indexOf (y # ys) x =
     (if strict_equal y x then 0
      else (let r = strict_indexOf ys x in if r = -1 then -1 else r + 1))"

fun strict_lastIndexOf :: "'a page list \<Rightarrow> 'a page \<Rightarrow> int" where
  "strict_lastIndexOf [] x = -1"
| "strict_lastIndexOf (y # ys) x =
     (let r = strict_lastIndexOf ys x in
      if r \<noteq> -1 then r + 1 else if strict_equal y x then 0 else -1)"

definition strict_indexOf_opt :: "'a page list \<Rightarrow> 'a page option \<Rightarrow> int" where
  "strict_indexOf_opt xs v = (case v of None \<Rightarrow> -1 | Some p \<Rightarrow> strict_indexOf xs p)"

text \<open>The Optimal scan for such pages: \<^verbatim>\<open>future.indexOf(m)\<close> is strict.\<close>

fun optimal_scan_strict ::
  "'a page list \<Rightarrow> 'a page list \<Rightarrow> jsnum \<times> 'a page option \<Rightarrow> jsnum \<times> 'a page option" where
  "optimal_scan_strict future [] acc = acc"
| "optimal_scan_strict future (m # ms) (farthest, victim) =
     (let nextUse = strict_indexOf future m
      in optimal_scan_strict future ms
           (if nextUse = -1 then (Infinity, Some m)
            else if lt farthest (Num nextUse) then (Num nextUse, Some m)
            else (farthest, victim)))"

text \<open>
  The callback of \<^verbatim>\<open>pages.forEach\<close> in \<^verbatim>\<open>computeSteps\<close>, for such pages: the same text, with
  \<^verbatim>\<open>indexOf\<close> strict.
\<close>

definition access_strict ::
  "'a page list \<Rightarrow> int \<Rightarrow> string \<Rightarrow> 'a page \<Rightarrow> nat \<Rightarrow> 'a page state \<Rightarrow> 'a page state" where
  "access_strict pages frameCount algo pg i s =
    (if js_includes (memory s) pg then
       s\<lparr> hits := hits s + 1,
          lastUsed := (lastUsed s)(pg \<mapsto> i),
          result := result s @
            [\<lparr> index = i, page = pg, memory_clone = memory s, hit = True,
               replacedIndex = -1, info = Hit \<rparr>] \<rparr>
     else if int (length (memory s)) < frameCount then
       (let memory' = memory s @ [pg] in
        s\<lparr> faults := faults s + 1,
           memory := memory',
           fifoQueue := fifoQueue s @ [pg],
           lastUsed := (lastUsed s)(pg \<mapsto> i),
           result := result s @
             [\<lparr> index = i, page = pg, memory_clone = memory', hit = False,
                replacedIndex = int (length memory') - 1, info = PlacedIntoFreeSlot \<rparr>] \<rparr>)
     else if algo = ''fifo'' then
       (let (old, queue) = js_shift (fifoQueue s);
            replaceIndex = strict_indexOf_opt (memory s) old;
            memory' = js_splice (memory s) replaceIndex 1 [pg]
        in s\<lparr> faults := faults s + 1,
              memory := memory',
              fifoQueue := queue @ [pg],
              lastUsed := map_delete old ((lastUsed s)(pg \<mapsto> i)),
              result := result s @
                [\<lparr> index = i, page = pg, memory_clone = memory', hit = False,
                   replacedIndex = replaceIndex, info = FIFOReplaced old \<rparr>] \<rparr>)
     else if algo = ''lru'' then
       (let (oldestPage, oldestIndex) = lru_scan (lastUsed s) (memory s) (None, Infinity);
            replaceIndex = strict_indexOf_opt (memory s) oldestPage;
            memory' = js_splice (memory s) replaceIndex 1 [pg];
            qidx = strict_indexOf_opt (fifoQueue s) oldestPage
        in s\<lparr> faults := faults s + 1,
              memory := memory',
              lastUsed := (map_delete oldestPage (lastUsed s))(pg \<mapsto> i),
              fifoQueue := (if qidx \<noteq> -1 then js_splice (fifoQueue s) qidx 1 [pg]
                            else fifoQueue s),
              result := result s @
                [\<lparr> index = i, page = pg, memory_clone = memory', hit = False,
                   replacedIndex = replaceIndex, info = LRUReplaced oldestPage \<rparr>] \<rparr>)
     else if algo = ''optimal'' then
       (let future = drop (i + 1) pages;
            (farthest, victim) = optimal_scan_strict future (memory s) (Num (-1), None);
            replaceIndex = strict_indexOf_opt (memory s) victim;
            memory' = js_splice (memory s) replaceIndex 1 [pg];
            qidx = strict_indexOf_opt (fifoQueue s) victim
        in s\<lparr> faults := faults s + 1,
              memory := memory',
              lastUsed := (map_delete victim (lastUsed s))(pg \<mapsto> i),
              fifoQueue := (if qidx \<noteq> -1 then js_splice (fifoQueue s) qidx 1 [pg]
                            else fifoQueue s),
              result := result s @
                [\<lparr> index = i, page = pg, memory_clone = memory', hit = False,
                   replacedIndex = replaceIndex, info = OptimalReplaced victim \<rparr>] \<rparr>)
     else s\<lparr> faults := faults s + 1 \<rparr>)"

definition computeSteps_strict :: "'a page list \<Rightarrow> int \<Rightarrow> string \<Rightarrow> 'a page outcome" where
  "computeSteps_strict pages frameCount algo =
     (let s = forEach (access_strict pages frameCount algo) pages 0 init
      in \<lparr> steps = result s, totals_faults = faults s, totals_hits = hits s \<rparr>)"


section \<open>The earlier version of the simulator: \<^verbatim>\<open>simulate\<close>\<close>

text \<open>
  \<^verbatim>\<open>simulate\<close> keeps one array \<^verbatim>\<open>memory\<close> and a fault counter, and hands every access to
  \<^verbatim>\<open>renderStep(page, memory, hit, output)\<close>. What is rendered is kept as a list. Its pages are
  the numbers that \<^verbatim>\<open>map(Number)\<close> gives, \<^verbatim>\<open>NaN\<close> among them: \<^verbatim>\<open>memory.includes\<close> finds a
  \<^verbatim>\<open>NaN\<close>, \<^verbatim>\<open>past.lastIndexOf\<close> and \<^verbatim>\<open>future.indexOf\<close> do not. \<^verbatim>\<open>frames\<close> is the result of
  \<^verbatim>\<open>parseInt\<close>; a \<^verbatim>\<open>NaN\<close> there makes \<^verbatim>\<open>memory.length < frames\<close> false, as \<open>0\<close> does.
\<close>

record 'a rendered =
  shown_page :: 'a
  shown_memory :: "'a list"
  shown_hit :: bool

record 'a sim_state =
  sim_memory :: "'a list"
  sim_faults :: nat
  rendered_steps :: "'a rendered list"

definition sim_access ::
  "'a page list \<Rightarrow> int \<Rightarrow> string \<Rightarrow> 'a page \<Rightarrow> nat \<Rightarrow> 'a page sim_state \<Rightarrow> 'a page sim_state" where
  "sim_access pages frames algo pg i s =
    (let isHit = js_includes (sim_memory s) pg;
         s1 =
           (if \<not> isHit then
              (let s' = s\<lparr> sim_faults := sim_faults s + 1 \<rparr> in
               if int (length (sim_memory s)) < frames then
                 s'\<lparr> sim_memory := sim_memory s @ [pg] \<rparr>
               else
                 (let m =
                    (if algo = ''fifo'' then snd (js_shift (sim_memory s))
                     else if algo = ''lru'' then
                       (let past = take i pages;
                            indexes = map (\<lambda>m. let idx = strict_lastIndexOf past m
                                                in if idx = -1 then Num (-1) else Num idx)
                                          (sim_memory s);
                            replace = js_indexOf indexes (Math_min indexes)
                        in js_splice (sim_memory s) replace 1 [])
                     else if algo = ''optimal'' then
                       (let future = drop (i + 1) pages;
                            indexes = map (\<lambda>m. let idx = strict_indexOf future m
                                                in if idx = -1 then Infinity else Num idx)
                                          (sim_memory s);
                            replace = js_indexOf indexes (Math_max indexes)
                        in js_splice (sim_memory s) replace 1 [])
                     else sim_memory s)
                  in s'\<lparr> sim_memory := m @ [pg] \<rparr>))
            else s)
     in s1\<lparr> rendered_steps := rendered_steps s1 @
              [\<lparr> shown_page = pg, shown_memory = sim_memory s1, shown_hit = isHit \<rparr>] \<rparr>)"

definition sim_init :: "'a sim_state" where
  "sim_init = \<lparr> sim_memory = [], sim_faults = 0, rendered_steps = [] \<rparr>"

definition simulate :: "'a page list \<Rightarrow> int \<Rightarrow> string \<Rightarrow> 'a page sim_state" where
  "simulate pages frames algo = forEach (sim_access pages frames algo) pages 0 sim_init"


section \<open>Notions used to state the properties\<close>

text \<open>The three selectors the simulator knows.\<close>

definition recognized :: "string \<Rightarrow> bool" where
  "recognized algo = (algo = ''fifo'' \<or> algo = ''lru'' \<or> algo = ''optimal'')"

text \<open>The frame contents before access \<open>i\<close>: the snapshot of step \<open>i - 1\<close>, empty before the first.\<close>

definition before :: "'a step list \<Rightarrow> nat \<Rightarrow> 'a list" where
  "before stps i = (if i = 0 then [] else memory_clone (stps ! (i - 1)))"

text \<open>The state of \<^verbatim>\<open>computeSteps\<close> after the first \<open>n\<close> accesses, and the same for \<^verbatim>\<open>simulate\<close>.\<close>

primrec run :: "'a list \<Rightarrow> int \<Rightarrow> string \<Rightarrow> nat \<Rightarrow> 'a state" where
  "run pages frameCount algo 0 = init"
| "run pages frameCount algo (Suc n) =
     access pages frameCount algo (pages ! n) n (run pages frameCount algo n)"

primrec sim_run :: "'a page list \<Rightarrow> int \<Rightarrow> string \<Rightarrow> nat \<Rightarrow> 'a page sim_state" where
  "sim_run pages frames algo 0 = sim_init"
| "sim_run pages frames algo (Suc n) =
     sim_access pages frames algo (pages ! n) n (sim_run pages frames algo n)"

text \<open>
  The index of the fault that placed page \<open>p\<close> most recently among the given steps
  (\<open>None\<close> when no fault on \<open>p\<close> is among them).
\<close>

definition placedAt :: "'a step list \<Rightarrow> 'a \<Rightarrow> nat option" where
  "placedAt stps p =
     (case filter (\<lambda>r. page r = p \<and> \<not> hit r) stps of
        [] \<Rightarrow> None
      | r # rs \<Rightarrow> Some (index (last (r # rs))))"

text \<open>
  \<open>lastUse pages i p\<close>: the largest index below \<open>i\<close> at which \<open>p\<close> is accessed, or \<open>-1\<close>.
  \<open>nextUse pages i p\<close>: the distance, counted from \<open>i + 1\<close>, to the next access of \<open>p\<close> after
  \<open>i\<close>, or \<open>None\<close> (never again).
\<close>

definition lastUse :: "'a list \<Rightarrow> nat \<Rightarrow> 'a \<Rightarrow> int" where
  "lastUse pages i p = js_lastIndexOf (take i pages) p"

definition nextUse :: "'a list \<Rightarrow> nat \<Rightarrow> 'a \<Rightarrow> nat option" where
  "nextUse pages i p =
     (if p \<in> set (drop (i + 1) pages) then Some (nat (js_indexOf (drop (i + 1) pages) p))
      else None)"


text \<open>
  The page that the replacement branch of \<^verbatim>\<open>computeSteps\<close> selects in state \<open>s\<close> at access \<open>i\<close>:
  \<^verbatim>\<open>old\<close>, \<^verbatim>\<open>oldestPage\<close> or \<^verbatim>\<open>victim\<close>, by algorithm.
\<close>

definition selected :: "'a list \<Rightarrow> string \<Rightarrow> nat \<Rightarrow> 'a state \<Rightarrow> 'a option" where
  "selected pages algo i s =
     (if algo = ''fifo'' then fst (js_shift (fifoQueue s))
      else if algo = ''lru'' then fst (lru_scan (lastUsed s) (memory s) (None, Infinity))
      else snd (optimal_scan (drop (i + 1) pages) (memory s) (Num (-1), None)))"

text \<open>The \<^verbatim>\<open>info\<close> text of a replacement, by algorithm.\<close>

definition replaced_info :: "string \<Rightarrow> 'a option \<Rightarrow> 'a info" where
  "replaced_info algo v =
     (if algo = ''fifo'' then FIFOReplaced v
      else if algo = ''lru'' then LRUReplaced v
      else OptimalReplaced v)"

text \<open>
  What every reachable state satisfies when the capacity is at least 1: no page is resident
  twice, at most \<open>C\<close> pages are resident, and the arrival queue holds the resident pages.
\<close>

definition wf :: "int \<Rightarrow> 'a state \<Rightarrow> bool" where
  "wf C s = (distinct (memory s) \<and> int (length (memory s)) \<le> C
             \<and> distinct (fifoQueue s) \<and> set (fifoQueue s) = set (memory s))"


section \<open>Properties of the array primitives\<close>

lemma js_indexOf_ge: "- 1 \<le> js_indexOf xs x"
  by (induction xs) (auto simp: Let_def)

lemma js_indexOf_notin: "(js_indexOf xs x = - 1) = (x \<notin> set xs)"
proof (induction xs)
  case Nil
  show ?case by simp
next
  case (Cons y ys)
  have "- 1 \<le> js_indexOf ys x" by (rule js_indexOf_ge)
  with Cons show ?case by (auto simp: Let_def)
qed

lemma js_indexOf_in:
  "x \<in> set xs \<Longrightarrow>
     0 \<le> js_indexOf xs x \<and> js_indexOf xs x < int (length xs) \<and> xs ! nat (js_indexOf xs x) = x"
proof (induction xs)
  case Nil
  then show ?case by simp
next
  case (Cons y ys)
  show ?case
  proof (cases "y = x")
    case True
    then show ?thesis by simp
  next
    case False
    with Cons.prems have mem: "x \<in> set ys" by simp
    hence ne: "js_indexOf ys x \<noteq> - 1" by (simp add: js_indexOf_notin)
    from Cons.IH [OF mem] False ne show ?thesis
      by (simp add: Let_def nat_add_distrib)
  qed
qed

lemma js_indexOf_nat:
  assumes "x \<in> set xs"
  shows "nat (js_indexOf xs x) < length xs" and "xs ! nat (js_indexOf xs x) = x"
    and "int (nat (js_indexOf xs x)) = js_indexOf xs x"
proof -
  from js_indexOf_in [OF assms] have a: "0 \<le> js_indexOf xs x"
    and b: "js_indexOf xs x < int (length xs)" and c: "xs ! nat (js_indexOf xs x) = x"
    by simp_all
  from a b show "nat (js_indexOf xs x) < length xs" by linarith
  from c show "xs ! nat (js_indexOf xs x) = x" .
  from a show "int (nat (js_indexOf xs x)) = js_indexOf xs x" by simp
qed

lemma js_indexOf_first:
  "x \<in> set xs \<Longrightarrow> j < nat (js_indexOf xs x) \<Longrightarrow> xs ! j \<noteq> x"
proof (induction xs arbitrary: j)
  case Nil
  then show ?case by simp
next
  case (Cons y ys)
  show ?case
  proof (cases "y = x")
    case True
    with Cons.prems show ?thesis by simp
  next
    case False
    with Cons.prems have mem: "x \<in> set ys" by simp
    hence ne: "js_indexOf ys x \<noteq> - 1" by (simp add: js_indexOf_notin)
    from js_indexOf_in [OF mem] have nn: "0 \<le> js_indexOf ys x" by simp
    show ?thesis
    proof (cases j)
      case 0
      with False show ?thesis by simp
    next
      case (Suc j')
      with Cons.prems(2) False ne nn have "j' < nat (js_indexOf ys x)"
        by (simp add: Let_def nat_add_distrib)
      from Cons.IH [OF mem this] Suc show ?thesis by simp
    qed
  qed
qed

lemma js_indexOf_nth:
  "distinct xs \<Longrightarrow> k < length xs \<Longrightarrow> js_indexOf xs (xs ! k) = int k"
proof (induction xs arbitrary: k)
  case Nil
  then show ?case by simp
next
  case (Cons y ys)
  show ?case
  proof (cases k)
    case 0
    then show ?thesis by simp
  next
    case (Suc k')
    with Cons.prems have k': "k' < length ys" and d: "distinct ys" and ny: "y \<notin> set ys"
      by simp_all
    from k' ny have "y \<noteq> ys ! k'" by (metis nth_mem)
    with Cons.IH [OF d k'] Suc show ?thesis by (simp add: Let_def)
  qed
qed

lemma js_splice_at:
  assumes "0 \<le> k" and "k < int (length xs)"
  shows "js_splice xs k 1 items = take (nat k) xs @ items @ drop (Suc (nat k)) xs"
proof -
  from assms have a: "\<not> k < 0" and b: "min k (int (length xs)) = k"
    and c: "min (max 1 0) (int (length xs) - k) = (1::int)"
    and d: "nat (k + 1) = Suc (nat k)"
    by simp_all
  show ?thesis
    unfolding js_splice_def Let_def by (simp only: a b c d if_False)
qed

lemma js_splice_replace:
  assumes "0 \<le> k" and "k < int (length xs)"
  shows "js_splice xs k 1 [y] = xs[nat k := y]"
proof -
  from assms have "nat k < length xs" by simp
  thus ?thesis
    by (simp add: js_splice_at [OF assms] upd_conv_take_nth_drop)
qed


section \<open>The branches of the callback of \<^verbatim>\<open>computeSteps\<close>\<close>

lemma access_hit:
  "pg \<in> set (memory s) \<Longrightarrow>
   access pages C algo pg i s =
     s\<lparr> hits := hits s + 1,
        lastUsed := (lastUsed s)(pg \<mapsto> i),
        result := result s @
          [\<lparr> index = i, page = pg, memory_clone = memory s, hit = True,
             replacedIndex = -1, info = Hit \<rparr>] \<rparr>"
  by (simp add: access_def js_includes_def)

lemma access_free:
  "pg \<notin> set (memory s) \<Longrightarrow> int (length (memory s)) < C \<Longrightarrow>
   access pages C algo pg i s =
     s\<lparr> faults := faults s + 1,
        memory := memory s @ [pg],
        fifoQueue := fifoQueue s @ [pg],
        lastUsed := (lastUsed s)(pg \<mapsto> i),
        result := result s @
          [\<lparr> index = i, page = pg, memory_clone = memory s @ [pg], hit = False,
             replacedIndex = int (length (memory s)), info = PlacedIntoFreeSlot \<rparr>] \<rparr>"
  by (simp add: access_def js_includes_def Let_def)

lemma access_fifo:
  "pg \<notin> set (memory s) \<Longrightarrow> \<not> int (length (memory s)) < C \<Longrightarrow>
   access pages C ''fifo'' pg i s =
     s\<lparr> faults := faults s + 1,
        memory := js_splice (memory s) (indexOf_opt (memory s) (fst (js_shift (fifoQueue s)))) 1 [pg],
        fifoQueue := snd (js_shift (fifoQueue s)) @ [pg],
        lastUsed := map_delete (fst (js_shift (fifoQueue s))) ((lastUsed s)(pg \<mapsto> i)),
        result := result s @
          [\<lparr> index = i, page = pg,
             memory_clone =
               js_splice (memory s) (indexOf_opt (memory s) (fst (js_shift (fifoQueue s)))) 1 [pg],
             hit = False,
             replacedIndex = indexOf_opt (memory s) (fst (js_shift (fifoQueue s))),
             info = FIFOReplaced (fst (js_shift (fifoQueue s))) \<rparr>] \<rparr>"
  by (simp add: access_def js_includes_def Let_def split_beta)

lemma access_lru:
  "pg \<notin> set (memory s) \<Longrightarrow> \<not> int (length (memory s)) < C \<Longrightarrow>
   v = fst (lru_scan (lastUsed s) (memory s) (None, Infinity)) \<Longrightarrow>
   access pages C ''lru'' pg i s =
     s\<lparr> faults := faults s + 1,
        memory := js_splice (memory s) (indexOf_opt (memory s) v) 1 [pg],
        lastUsed := (map_delete v (lastUsed s))(pg \<mapsto> i),
        fifoQueue := (if indexOf_opt (fifoQueue s) v \<noteq> -1
                      then js_splice (fifoQueue s) (indexOf_opt (fifoQueue s) v) 1 [pg]
                      else fifoQueue s),
        result := result s @
          [\<lparr> index = i, page = pg,
             memory_clone = js_splice (memory s) (indexOf_opt (memory s) v) 1 [pg],
             hit = False,
             replacedIndex = indexOf_opt (memory s) v,
             info = LRUReplaced v \<rparr>] \<rparr>"
  by (simp add: access_def js_includes_def Let_def split_beta)

lemma access_optimal:
  "pg \<notin> set (memory s) \<Longrightarrow> \<not> int (length (memory s)) < C \<Longrightarrow>
   v = snd (optimal_scan (drop (i + 1) pages) (memory s) (Num (-1), None)) \<Longrightarrow>
   access pages C ''optimal'' pg i s =
     s\<lparr> faults := faults s + 1,
        memory := js_splice (memory s) (indexOf_opt (memory s) v) 1 [pg],
        lastUsed := (map_delete v (lastUsed s))(pg \<mapsto> i),
        fifoQueue := (if indexOf_opt (fifoQueue s) v \<noteq> -1
                      then js_splice (fifoQueue s) (indexOf_opt (fifoQueue s) v) 1 [pg]
                      else fifoQueue s),
        result := result s @
          [\<lparr> index = i, page = pg,
             memory_clone = js_splice (memory s) (indexOf_opt (memory s) v) 1 [pg],
             hit = False,
             replacedIndex = indexOf_opt (memory s) v,
             info = OptimalReplaced v \<rparr>] \<rparr>"
  by (simp add: access_def js_includes_def Let_def split_beta)

lemma access_other:
  "pg \<notin> set (memory s) \<Longrightarrow> \<not> int (length (memory s)) < C \<Longrightarrow> \<not> recognized algo \<Longrightarrow>
   access pages C algo pg i s = s\<lparr> faults := faults s + 1 \<rparr>"
  by (simp add: access_def js_includes_def recognized_def)


section \<open>The run of \<^verbatim>\<open>computeSteps\<close>, access by access\<close>

lemma recognized_cases:
  assumes "recognized algo"
  obtains "algo = ''fifo''" | "algo = ''lru''" | "algo = ''optimal''"
  using assms unfolding recognized_def by blast

lemma access_record:
  assumes "recognized algo"
  shows "\<exists>r. result (access pages C algo pg i s) = result s @ [r]
           \<and> index r = i \<and> page r = pg
           \<and> memory_clone r = memory (access pages C algo pg i s)
           \<and> hit r = (pg \<in> set (memory s))
           \<and> (hit r \<longrightarrow> replacedIndex r = -1)
           \<and> hits (access pages C algo pg i s) = hits s + (if pg \<in> set (memory s) then 1 else 0)
           \<and> faults (access pages C algo pg i s) = faults s + (if pg \<in> set (memory s) then 0 else 1)"
proof (cases "pg \<in> set (memory s)")
  case True
  then show ?thesis by (simp add: access_hit)
next
  case notin: False
  show ?thesis
  proof (cases "int (length (memory s)) < C")
    case True
    with notin show ?thesis by (simp add: access_free)
  next
    case False
    from assms show ?thesis
    proof (cases rule: recognized_cases)
      case 1
      with notin False show ?thesis by (simp add: access_fifo)
    next
      case 2
      with notin False show ?thesis by (simp add: access_lru)
    next
      case 3
      with notin False show ?thesis by (simp add: access_optimal)
    qed
  qed
qed

lemma run_result_length:
  "recognized algo \<Longrightarrow> length (result (run pages C algo n)) = n"
proof (induction n)
  case 0
  show ?case by (simp add: init_def)
next
  case (Suc n)
  from access_record [OF Suc.prems, of pages C "pages ! n" n "run pages C algo n"] Suc.IH [OF Suc.prems]
  show ?case by auto
qed

lemma run_counters:
  "faults (run pages C algo n) + hits (run pages C algo n) = n"
proof (induction n)
  case 0
  show ?case by (simp add: init_def)
next
  case (Suc n)
  let ?s = "run pages C algo n"
  have "faults (access pages C algo (pages ! n) n ?s) + hits (access pages C algo (pages ! n) n ?s)
        = Suc (faults ?s + hits ?s)"
  proof (cases "recognized algo")
    case True
    from access_record [OF True, of pages C "pages ! n" n ?s] show ?thesis by auto
  next
    case unk: False
    show ?thesis
    proof (cases "pages ! n \<in> set (memory ?s)")
      case True
      then show ?thesis by (simp add: access_hit)
    next
      case notin: False
      show ?thesis
      proof (cases "int (length (memory ?s)) < C")
        case True
        with notin show ?thesis by (simp add: access_free)
      next
        case False
        with notin unk show ?thesis by (simp add: access_other)
      qed
    qed
  qed
  with Suc show ?case by simp
qed

lemma run_result_prefix:
  assumes "recognized algo"
  shows "n \<le> m \<Longrightarrow> take n (result (run pages C algo m)) = result (run pages C algo n)"
proof (induction m)
  case 0
  then show ?case by (simp add: init_def)
next
  case (Suc m)
  show ?case
  proof (cases "n = Suc m")
    case True
    with run_result_length [OF assms, of pages C "Suc m"] show ?thesis by simp
  next
    case False
    with Suc.prems have le: "n \<le> m" by simp
    from access_record [OF assms, of pages C "pages ! m" m "run pages C algo m"]
    obtain r where r: "result (run pages C algo (Suc m)) = result (run pages C algo m) @ [r]"
      by auto
    from le have "take n (result (run pages C algo m) @ [r]) = take n (result (run pages C algo m))"
      by (simp add: run_result_length [OF assms])
    with r Suc.IH [OF le] show ?thesis by simp
  qed
qed

lemma run_result_nth:
  assumes "recognized algo" and "n < m"
  shows "result (run pages C algo m) ! n = last (result (run pages C algo (Suc n)))"
proof -
  from assms(2) have le: "Suc n \<le> m" by simp
  have len: "length (result (run pages C algo (Suc n))) = Suc n"
    by (rule run_result_length [OF assms(1)])
  hence ne: "result (run pages C algo (Suc n)) \<noteq> []" by auto
  have "last (result (run pages C algo (Suc n))) = result (run pages C algo (Suc n)) ! n"
    unfolding last_conv_nth [OF ne] len by simp
  also have "\<dots> = take (Suc n) (result (run pages C algo m)) ! n"
    by (simp only: run_result_prefix [OF assms(1) le])
  also have "\<dots> = result (run pages C algo m) ! n" by simp
  finally show ?thesis by simp
qed

lemma run_memory_last:
  assumes "recognized algo"
  shows "memory (run pages C algo (Suc n)) = memory_clone (last (result (run pages C algo (Suc n))))"
  using access_record [OF assms, of pages C "pages ! n" n "run pages C algo n"] by auto

lemma run_before:
  assumes "recognized algo" and "n \<le> m"
  shows "before (result (run pages C algo m)) n = memory (run pages C algo n)"
proof (cases n)
  case 0
  then show ?thesis by (simp add: before_def init_def)
next
  case (Suc k)
  with assms(2) have "k < m" by simp
  from run_result_nth [OF assms(1) this, of pages C] run_memory_last [OF assms(1), of pages C k] Suc
  show ?thesis by (simp add: before_def)
qed

lemma forEach_run:
  "i \<le> length pages \<Longrightarrow>
   forEach (access pages C algo) (drop i pages) i (run pages C algo i)
     = run pages C algo (length pages)"
proof (induction "length pages - i" arbitrary: i)
  case 0
  then show ?case by simp
next
  case (Suc d)
  hence lt: "i < length pages" and d: "d = length pages - Suc i" by simp_all
  from lt have "drop i pages = pages ! i # drop (Suc i) pages"
    by (simp add: Cons_nth_drop_Suc)
  with Suc.hyps(1) [OF d] lt show ?case by simp
qed

lemma forEach_sim_run:
  "i \<le> length pages \<Longrightarrow>
   forEach (sim_access pages C algo) (drop i pages) i (sim_run pages C algo i)
     = sim_run pages C algo (length pages)"
proof (induction "length pages - i" arbitrary: i)
  case 0
  then show ?case by simp
next
  case (Suc d)
  hence lt: "i < length pages" and d: "d = length pages - Suc i" by simp_all
  from lt have "drop i pages = pages ! i # drop (Suc i) pages"
    by (simp add: Cons_nth_drop_Suc)
  with Suc.hyps(1) [OF d] lt show ?case by simp
qed

lemma computeSteps_run:
  "computeSteps pages C algo =
     \<lparr> steps = result (run pages C algo (length pages)),
        totals_faults = faults (run pages C algo (length pages)),
        totals_hits = hits (run pages C algo (length pages)) \<rparr>"
  using forEach_run [of 0 pages C algo] by (simp add: computeSteps_def Let_def)

lemma simulate_run: "simulate pages C algo = sim_run pages C algo (length pages)"
  using forEach_sim_run [of 0 pages C algo] by (simp add: simulate_def)

text \<open>The view of one access from the returned steps.\<close>

lemma step_view:
  assumes "recognized algo" and "i < length pages"
  shows "before (steps (computeSteps pages C algo)) i = memory (run pages C algo i)"
    and "steps (computeSteps pages C algo) ! i
           = last (result (access pages C algo (pages ! i) i (run pages C algo i)))"
    and "take i (steps (computeSteps pages C algo)) = result (run pages C algo i)"
proof -
  from assms(2) have le: "i \<le> length pages" by simp
  show "before (steps (computeSteps pages C algo)) i = memory (run pages C algo i)"
    by (simp add: computeSteps_run run_before [OF assms(1) le])
  show "steps (computeSteps pages C algo) ! i
           = last (result (access pages C algo (pages ! i) i (run pages C algo i)))"
    using run_result_nth [OF assms, of pages C] by (simp add: computeSteps_run)
  show "take i (steps (computeSteps pages C algo)) = result (run pages C algo i)"
    by (simp add: computeSteps_run run_result_prefix [OF assms(1) le])
qed


section \<open>What the two victim scans return\<close>

subsection \<open>The LRU scan\<close>

lemma lru_scan_acc:
  "\<exists>v. lru_scan lu ps (Some a, Num (last_of lu a)) = (Some v, Num (last_of lu v))
     \<and> ((v = a \<and> (\<forall>q\<in>set ps. last_of lu a \<le> last_of lu q))
        \<or> (\<exists>ps1 ps2. ps = ps1 @ v # ps2 \<and> last_of lu v < last_of lu a
              \<and> (\<forall>q\<in>set ps1. last_of lu v < last_of lu q)
              \<and> (\<forall>q\<in>set ps2. last_of lu v \<le> last_of lu q)))"
proof (induction ps arbitrary: a)
  case Nil
  show ?case by simp
next
  case (Cons p ps)
  show ?case
  proof (cases "last_of lu p < last_of lu a")
    case True
    hence step: "lru_scan lu (p # ps) (Some a, Num (last_of lu a))
                 = lru_scan lu ps (Some p, Num (last_of lu p))"
      by simp
    from Cons.IH [of p] obtain v where
      v: "lru_scan lu ps (Some p, Num (last_of lu p)) = (Some v, Num (last_of lu v))"
      and alt: "(v = p \<and> (\<forall>q\<in>set ps. last_of lu p \<le> last_of lu q))
        \<or> (\<exists>ps1 ps2. ps = ps1 @ v # ps2 \<and> last_of lu v < last_of lu p
              \<and> (\<forall>q\<in>set ps1. last_of lu v < last_of lu q)
              \<and> (\<forall>q\<in>set ps2. last_of lu v \<le> last_of lu q))"
      by blast
    from alt have "\<exists>ps1 ps2. p # ps = ps1 @ v # ps2 \<and> last_of lu v < last_of lu a
              \<and> (\<forall>q\<in>set ps1. last_of lu v < last_of lu q)
              \<and> (\<forall>q\<in>set ps2. last_of lu v \<le> last_of lu q)"
    proof
      assume "v = p \<and> (\<forall>q\<in>set ps. last_of lu p \<le> last_of lu q)"
      with True have "p # ps = [] @ v # ps \<and> last_of lu v < last_of lu a
              \<and> (\<forall>q\<in>set []. last_of lu v < last_of lu q)
              \<and> (\<forall>q\<in>set ps. last_of lu v \<le> last_of lu q)"
        by simp
      thus ?thesis by blast
    next
      assume "\<exists>ps1 ps2. ps = ps1 @ v # ps2 \<and> last_of lu v < last_of lu p
              \<and> (\<forall>q\<in>set ps1. last_of lu v < last_of lu q)
              \<and> (\<forall>q\<in>set ps2. last_of lu v \<le> last_of lu q)"
      then obtain ps1 ps2 where "ps = ps1 @ v # ps2" "last_of lu v < last_of lu p"
        "\<forall>q\<in>set ps1. last_of lu v < last_of lu q" "\<forall>q\<in>set ps2. last_of lu v \<le> last_of lu q"
        by blast
      with True have "p # ps = (p # ps1) @ v # ps2 \<and> last_of lu v < last_of lu a
              \<and> (\<forall>q\<in>set (p # ps1). last_of lu v < last_of lu q)
              \<and> (\<forall>q\<in>set ps2. last_of lu v \<le> last_of lu q)"
        by simp
      thus ?thesis by blast
    qed
    with step v show ?thesis by simp
  next
    case False
    hence step: "lru_scan lu (p # ps) (Some a, Num (last_of lu a))
                 = lru_scan lu ps (Some a, Num (last_of lu a))"
      by simp
    from Cons.IH [of a] obtain v where
      v: "lru_scan lu ps (Some a, Num (last_of lu a)) = (Some v, Num (last_of lu v))"
      and alt: "(v = a \<and> (\<forall>q\<in>set ps. last_of lu a \<le> last_of lu q))
        \<or> (\<exists>ps1 ps2. ps = ps1 @ v # ps2 \<and> last_of lu v < last_of lu a
              \<and> (\<forall>q\<in>set ps1. last_of lu v < last_of lu q)
              \<and> (\<forall>q\<in>set ps2. last_of lu v \<le> last_of lu q))"
      by blast
    from alt have "(v = a \<and> (\<forall>q\<in>set (p # ps). last_of lu a \<le> last_of lu q))
        \<or> (\<exists>ps1 ps2. p # ps = ps1 @ v # ps2 \<and> last_of lu v < last_of lu a
              \<and> (\<forall>q\<in>set ps1. last_of lu v < last_of lu q)
              \<and> (\<forall>q\<in>set ps2. last_of lu v \<le> last_of lu q))"
    proof
      assume "v = a \<and> (\<forall>q\<in>set ps. last_of lu a \<le> last_of lu q)"
      with False show ?thesis by simp
    next
      assume "\<exists>ps1 ps2. ps = ps1 @ v # ps2 \<and> last_of lu v < last_of lu a
              \<and> (\<forall>q\<in>set ps1. last_of lu v < last_of lu q)
              \<and> (\<forall>q\<in>set ps2. last_of lu v \<le> last_of lu q)"
      then obtain ps1 ps2 where "ps = ps1 @ v # ps2" "last_of lu v < last_of lu a"
        "\<forall>q\<in>set ps1. last_of lu v < last_of lu q" "\<forall>q\<in>set ps2. last_of lu v \<le> last_of lu q"
        by blast
      with False have "p # ps = (p # ps1) @ v # ps2 \<and> last_of lu v < last_of lu a
              \<and> (\<forall>q\<in>set (p # ps1). last_of lu v < last_of lu q)
              \<and> (\<forall>q\<in>set ps2. last_of lu v \<le> last_of lu q)"
        by simp
      thus ?thesis by blast
    qed
    with step v show ?thesis by simp
  qed
qed

lemma lru_scan_init:
  assumes "mem \<noteq> []"
  shows "\<exists>v ps1 ps2. lru_scan lu mem (None, Infinity) = (Some v, Num (last_of lu v))
           \<and> mem = ps1 @ v # ps2
           \<and> (\<forall>q\<in>set ps1. last_of lu v < last_of lu q)
           \<and> (\<forall>q\<in>set ps2. last_of lu v \<le> last_of lu q)"
proof -
  from assms obtain p ps where mem: "mem = p # ps" by (cases mem) auto
  have step: "lru_scan lu mem (None, Infinity) = lru_scan lu ps (Some p, Num (last_of lu p))"
    by (simp add: mem)
  from lru_scan_acc [of lu ps p] obtain v where
    v: "lru_scan lu ps (Some p, Num (last_of lu p)) = (Some v, Num (last_of lu v))"
    and alt: "(v = p \<and> (\<forall>q\<in>set ps. last_of lu p \<le> last_of lu q))
        \<or> (\<exists>ps1 ps2. ps = ps1 @ v # ps2 \<and> last_of lu v < last_of lu p
              \<and> (\<forall>q\<in>set ps1. last_of lu v < last_of lu q)
              \<and> (\<forall>q\<in>set ps2. last_of lu v \<le> last_of lu q))"
    by blast
  from alt have "\<exists>ps1 ps2. mem = ps1 @ v # ps2
           \<and> (\<forall>q\<in>set ps1. last_of lu v < last_of lu q)
           \<and> (\<forall>q\<in>set ps2. last_of lu v \<le> last_of lu q)"
  proof
    assume "v = p \<and> (\<forall>q\<in>set ps. last_of lu p \<le> last_of lu q)"
    hence "mem = [] @ v # ps \<and> (\<forall>q\<in>set []. last_of lu v < last_of lu q)
           \<and> (\<forall>q\<in>set ps. last_of lu v \<le> last_of lu q)"
      by (simp add: mem)
    thus ?thesis by blast
  next
    assume "\<exists>ps1 ps2. ps = ps1 @ v # ps2 \<and> last_of lu v < last_of lu p
              \<and> (\<forall>q\<in>set ps1. last_of lu v < last_of lu q)
              \<and> (\<forall>q\<in>set ps2. last_of lu v \<le> last_of lu q)"
    then obtain ps1 ps2 where "ps = ps1 @ v # ps2" "last_of lu v < last_of lu p"
        "\<forall>q\<in>set ps1. last_of lu v < last_of lu q" "\<forall>q\<in>set ps2. last_of lu v \<le> last_of lu q"
      by blast
    hence "mem = (p # ps1) @ v # ps2 \<and> (\<forall>q\<in>set (p # ps1). last_of lu v < last_of lu q)
           \<and> (\<forall>q\<in>set ps2. last_of lu v \<le> last_of lu q)"
      by (simp add: mem)
    thus ?thesis by blast
  qed
  with step v show ?thesis by simp
qed

subsection \<open>The Optimal scan\<close>

lemma optimal_scan_append:
  "optimal_scan f (xs @ ys) acc = optimal_scan f ys (optimal_scan f xs acc)"
proof (induction xs arbitrary: acc)
  case Nil
  show ?case by simp
next
  case (Cons x xs)
  obtain far v where acc: "acc = (far, v)" by (cases acc)
  show ?case unfolding acc by (simp add: Let_def Cons.IH)
qed

lemma optimal_scan_inf:
  "\<forall>q\<in>set ms. q \<in> set f \<Longrightarrow> optimal_scan f ms (Infinity, v) = (Infinity, v)"
  by (induction ms) (simp_all add: Let_def js_indexOf_notin)

lemma optimal_scan_dead:
  assumes "d \<notin> set f" and "\<forall>q\<in>set ms2. q \<in> set f"
  shows "optimal_scan f (ms1 @ d # ms2) acc = (Infinity, Some d)"
proof -
  obtain far v where acc': "optimal_scan f ms1 acc = (far, v)"
    by (cases "optimal_scan f ms1 acc")
  from assms(1) have "js_indexOf f d = - 1" by (simp add: js_indexOf_notin)
  hence "optimal_scan f (d # ms2) (far, v) = optimal_scan f ms2 (Infinity, Some d)"
    by (simp add: Let_def)
  with optimal_scan_inf [OF assms(2)] acc' show ?thesis
    by (simp add: optimal_scan_append)
qed

lemma optimal_scan_live:
  "\<forall>q\<in>set ms. q \<in> set f \<Longrightarrow>
   \<exists>k' v'. optimal_scan f ms (Num k, v0) = (Num k', v') \<and> k \<le> k'
     \<and> (\<forall>q\<in>set ms. js_indexOf f q \<le> k')
     \<and> ((v' = v0 \<and> k' = k) \<or> (\<exists>v\<in>set ms. v' = Some v \<and> js_indexOf f v = k'))"
proof (induction ms arbitrary: k v0)
  case Nil
  show ?case by simp
next
  case (Cons m ms)
  hence live: "\<forall>q\<in>set ms. q \<in> set f" and m: "js_indexOf f m \<noteq> - 1"
    by (simp_all add: js_indexOf_notin)
  show ?case
  proof (cases "k < js_indexOf f m")
    case True
    with m have step: "optimal_scan f (m # ms) (Num k, v0)
                       = optimal_scan f ms (Num (js_indexOf f m), Some m)"
      by (simp add: Let_def)
    from Cons.IH [OF live, of "js_indexOf f m" "Some m"] obtain k' v' where
      r: "optimal_scan f ms (Num (js_indexOf f m), Some m) = (Num k', v')"
      and le: "js_indexOf f m \<le> k'" and mx: "\<forall>q\<in>set ms. js_indexOf f q \<le> k'"
      and alt: "(v' = Some m \<and> k' = js_indexOf f m) \<or> (\<exists>v\<in>set ms. v' = Some v \<and> js_indexOf f v = k')"
      by blast
    from alt have "\<exists>v\<in>set (m # ms). v' = Some v \<and> js_indexOf f v = k'" by auto
    with step r le mx True show ?thesis by auto
  next
    case False
    with m have step: "optimal_scan f (m # ms) (Num k, v0) = optimal_scan f ms (Num k, v0)"
      by (simp add: Let_def)
    from Cons.IH [OF live, of k v0] obtain k' v' where
      r: "optimal_scan f ms (Num k, v0) = (Num k', v')"
      and le: "k \<le> k'" and mx: "\<forall>q\<in>set ms. js_indexOf f q \<le> k'"
      and alt: "(v' = v0 \<and> k' = k) \<or> (\<exists>v\<in>set ms. v' = Some v \<and> js_indexOf f v = k')"
      by blast
    from alt have "(v' = v0 \<and> k' = k) \<or> (\<exists>v\<in>set (m # ms). v' = Some v \<and> js_indexOf f v = k')"
      by auto
    with step r le mx False show ?thesis by auto
  qed
qed

lemma optimal_scan_live_init:
  assumes "ms \<noteq> []" and "\<forall>q\<in>set ms. q \<in> set f"
  shows "\<exists>v\<in>set ms. optimal_scan f ms (Num (- 1), None) = (Num (js_indexOf f v), Some v)
           \<and> (\<forall>q\<in>set ms. js_indexOf f q \<le> js_indexOf f v)"
proof -
  from optimal_scan_live [OF assms(2), of "- 1" None] obtain k' v' where
    r: "optimal_scan f ms (Num (- 1), None) = (Num k', v')"
    and mx: "\<forall>q\<in>set ms. js_indexOf f q \<le> k'"
    and alt: "(v' = None \<and> k' = - 1) \<or> (\<exists>v\<in>set ms. v' = Some v \<and> js_indexOf f v = k')"
    by blast
  from assms(1) obtain m where m: "m \<in> set ms" by (cases ms) auto
  with assms(2) have "m \<in> set f" by simp
  from js_indexOf_in [OF this] mx m have "0 \<le> k'" by force
  with alt obtain v where "v \<in> set ms" "v' = Some v" "js_indexOf f v = k'" by auto
  with r mx show ?thesis by auto
qed

lemma optimal_scan_dead_last:
  assumes "\<exists>q\<in>set ms. q \<notin> set f"
  shows "\<exists>ms1 d ms2. ms = ms1 @ d # ms2 \<and> d \<notin> set f \<and> (\<forall>q\<in>set ms2. q \<in> set f)
           \<and> optimal_scan f ms (Num (- 1), None) = (Infinity, Some d)"
proof -
  from split_list_last_prop [OF assms] obtain ms1 d ms2 where
    s: "ms = ms1 @ d # ms2" "d \<notin> set f" "\<forall>q\<in>set ms2. \<not> q \<notin> set f"
    by blast
  hence live: "\<forall>q\<in>set ms2. q \<in> set f" by simp
  from optimal_scan_dead [OF s(2) live, of ms1 "(Num (- 1), None)"] s live show ?thesis
    by blast
qed


section \<open>The invariant of the state, and replacement in place\<close>

lemma replace_distinct:
  assumes "distinct xs" and "v \<in> set xs" and "pg \<notin> set xs"
  shows "distinct (xs[nat (js_indexOf xs v) := pg])"
    and "set (xs[nat (js_indexOf xs v) := pg]) = insert pg (set xs - {v})"
proof -
  let ?k = "nat (js_indexOf xs v)"
  from js_indexOf_nat [OF assms(2)] have k: "?k < length xs" and at: "xs ! ?k = v" by simp_all
  from id_take_nth_drop [OF k] at have xs: "xs = take ?k xs @ v # drop (Suc ?k) xs" by simp
  have upd: "xs[?k := pg] = take ?k xs @ pg # drop (Suc ?k) xs"
    by (rule upd_conv_take_nth_drop [OF k])
  from assms(1) xs have d: "distinct (take ?k xs @ v # drop (Suc ?k) xs)" by simp
  from assms(3) have n1: "pg \<notin> set (take ?k xs)" and n2: "pg \<notin> set (drop (Suc ?k) xs)"
    by (auto dest: in_set_takeD in_set_dropD)
  from d n1 n2 show "distinct (xs[?k := pg])" unfolding upd by auto
  have "set xs = set (take ?k xs) \<union> {v} \<union> set (drop (Suc ?k) xs)"
    by (subst xs) auto
  moreover from d have "v \<notin> set (take ?k xs)" "v \<notin> set (drop (Suc ?k) xs)" by auto
  ultimately show "set (xs[?k := pg]) = insert pg (set xs - {v})" unfolding upd by auto
qed

lemma access_full:
  assumes "recognized algo" and "pg \<notin> set (memory s)" and "\<not> int (length (memory s)) < C"
  shows "memory (access pages C algo pg i s)
           = js_splice (memory s) (indexOf_opt (memory s) (selected pages algo i s)) 1 [pg]
    \<and> last (result (access pages C algo pg i s))
           = \<lparr> index = i, page = pg,
               memory_clone =
                 js_splice (memory s) (indexOf_opt (memory s) (selected pages algo i s)) 1 [pg],
               hit = False,
               replacedIndex = indexOf_opt (memory s) (selected pages algo i s),
               info = replaced_info algo (selected pages algo i s) \<rparr>
    \<and> fifoQueue (access pages C algo pg i s)
           = (if algo = ''fifo'' then snd (js_shift (fifoQueue s)) @ [pg]
              else if indexOf_opt (fifoQueue s) (selected pages algo i s) \<noteq> - 1
                then js_splice (fifoQueue s)
                       (indexOf_opt (fifoQueue s) (selected pages algo i s)) 1 [pg]
              else fifoQueue s)"
  using assms(1)
proof (cases rule: recognized_cases)
  case 1
  with assms(2,3) show ?thesis
    by (simp add: access_fifo selected_def replaced_info_def)
next
  case 2
  with assms(2,3) show ?thesis
    by (simp add: access_lru selected_def replaced_info_def)
next
  case 3
  with assms(2,3) show ?thesis
    by (simp add: access_optimal selected_def replaced_info_def)
qed

lemma selected_resident:
  assumes "recognized algo" and "wf C s" and "memory s \<noteq> []"
  shows "\<exists>v\<in>set (memory s). selected pages algo i s = Some v"
  using assms(1)
proof (cases rule: recognized_cases)
  case 1
  from assms(2,3) have "fifoQueue s \<noteq> []" by (auto simp: wf_def)
  then obtain q qs where q: "fifoQueue s = q # qs" by (cases "fifoQueue s") auto
  with assms(2) have "q \<in> set (memory s)" by (auto simp: wf_def)
  with 1 q show ?thesis by (simp add: selected_def js_shift_def)
next
  case 2
  from lru_scan_init [OF assms(3), of "lastUsed s"] obtain v ps1 ps2 where
    "lru_scan (lastUsed s) (memory s) (None, Infinity) = (Some v, Num (last_of (lastUsed s) v))"
    "memory s = ps1 @ v # ps2"
    by blast
  hence "fst (lru_scan (lastUsed s) (memory s) (None, Infinity)) = Some v" "v \<in> set (memory s)"
    by simp_all
  with 2 show ?thesis by (simp add: selected_def)
next
  case 3
  let ?f = "drop (i + 1) pages"
  have "\<exists>v\<in>set (memory s). snd (optimal_scan ?f (memory s) (Num (- 1), None)) = Some v"
  proof (cases "\<exists>q\<in>set (memory s). q \<notin> set ?f")
    case True
    from optimal_scan_dead_last [OF True] obtain ms1 d ms2 where
      "memory s = ms1 @ d # ms2" "optimal_scan ?f (memory s) (Num (- 1), None) = (Infinity, Some d)"
      by blast
    hence "d \<in> set (memory s)" "snd (optimal_scan ?f (memory s) (Num (- 1), None)) = Some d"
      by simp_all
    thus ?thesis by blast
  next
    case False
    hence "\<forall>q\<in>set (memory s). q \<in> set ?f" by blast
    from optimal_scan_live_init [OF assms(3) this] show ?thesis by force
  qed
  with 3 show ?thesis by (simp add: selected_def)
qed

text \<open>A fault with all frames full, at capacity at least 1, replaces a resident page in place.\<close>

lemma access_replace:
  assumes "recognized algo" and "1 \<le> C" and "wf C s"
    and "pg \<notin> set (memory s)" and "\<not> int (length (memory s)) < C"
  shows "\<exists>v k. selected pages algo i s = Some v \<and> k < length (memory s) \<and> memory s ! k = v
           \<and> js_indexOf (memory s) v = int k
           \<and> memory (access pages C algo pg i s) = (memory s)[k := pg]
           \<and> last (result (access pages C algo pg i s))
               = \<lparr> index = i, page = pg, memory_clone = (memory s)[k := pg], hit = False,
                   replacedIndex = int k, info = replaced_info algo (Some v) \<rparr>"
proof -
  from assms(2,5) have ne: "memory s \<noteq> []" by auto
  from selected_resident [OF assms(1,3) ne, of pages i] obtain v where
    v: "v \<in> set (memory s)" "selected pages algo i s = Some v"
    by blast
  let ?k = "nat (js_indexOf (memory s) v)"
  from js_indexOf_in [OF v(1)] have k: "0 \<le> js_indexOf (memory s) v"
    "js_indexOf (memory s) v < int (length (memory s))" "memory s ! ?k = v"
    by simp_all
  from js_indexOf_nat [OF v(1)] have kn: "?k < length (memory s)"
    "int ?k = js_indexOf (memory s) v"
    by simp_all
  have idx: "indexOf_opt (memory s) (selected pages algo i s) = js_indexOf (memory s) v"
    by (simp add: v(2) indexOf_opt_def)
  have spl: "js_splice (memory s) (js_indexOf (memory s) v) 1 [pg] = (memory s)[?k := pg]"
    by (rule js_splice_replace [OF k(1,2)])
  from access_full [OF assms(1,4,5), of pages i] idx spl v(2) kn(2)
  have "memory (access pages C algo pg i s) = (memory s)[?k := pg]"
    and "last (result (access pages C algo pg i s))
               = \<lparr> index = i, page = pg, memory_clone = (memory s)[?k := pg], hit = False,
                   replacedIndex = int ?k, info = replaced_info algo (Some v) \<rparr>"
    by simp_all
  with v(2) k(3) kn have "selected pages algo i s = Some v \<and> ?k < length (memory s)
           \<and> memory s ! ?k = v \<and> js_indexOf (memory s) v = int ?k
           \<and> memory (access pages C algo pg i s) = (memory s)[?k := pg]
           \<and> last (result (access pages C algo pg i s))
               = \<lparr> index = i, page = pg, memory_clone = (memory s)[?k := pg], hit = False,
                   replacedIndex = int ?k, info = replaced_info algo (Some v) \<rparr>"
    by simp
  thus ?thesis by blast
qed

lemma wf_access:
  assumes "recognized algo" and "1 \<le> C" and "wf C s"
  shows "wf C (access pages C algo pg i s)"
proof (cases "pg \<in> set (memory s)")
  case True
  with assms(3) show ?thesis by (simp add: access_hit wf_def)
next
  case notin: False
  show ?thesis
  proof (cases "int (length (memory s)) < C")
    case True
    with notin assms(3) show ?thesis by (simp add: access_free wf_def)
  next
    case False
    from assms(2) False have ne: "memory s \<noteq> []" by auto
    from selected_resident [OF assms(1,3) ne, of pages i] obtain v where
      v: "v \<in> set (memory s)" "selected pages algo i s = Some v"
      by blast
    let ?k = "nat (js_indexOf (memory s) v)"
    from js_indexOf_in [OF v(1)] have k: "0 \<le> js_indexOf (memory s) v"
      "js_indexOf (memory s) v < int (length (memory s))"
      by simp_all
    from assms(3) have dm: "distinct (memory s)" and dq: "distinct (fifoQueue s)"
      and sq: "set (fifoQueue s) = set (memory s)" and le: "int (length (memory s)) \<le> C"
      by (simp_all add: wf_def)
    have mem': "memory (access pages C algo pg i s) = (memory s)[?k := pg]"
      using access_full [OF assms(1) notin False, of pages i] js_splice_replace [OF k]
      by (simp add: v(2) indexOf_opt_def)
    from replace_distinct [OF dm v(1) notin]
    have m1: "distinct ((memory s)[?k := pg])"
      and m2: "set ((memory s)[?k := pg]) = insert pg (set (memory s) - {v})"
      by simp_all
    from v(1) sq notin have vq: "v \<in> set (fifoQueue s)" and nq: "pg \<notin> set (fifoQueue s)"
      by simp_all
    have q': "distinct (fifoQueue (access pages C algo pg i s))
              \<and> set (fifoQueue (access pages C algo pg i s)) = insert pg (set (memory s) - {v})"
    proof (cases "algo = ''fifo''")
      case True
      with v(2) obtain qs where q: "fifoQueue s = v # qs"
        by (cases "fifoQueue s") (auto simp: selected_def js_shift_def)
      with access_full [OF assms(1) notin False, of pages i] True
      have "fifoQueue (access pages C algo pg i s) = qs @ [pg]"
        by (simp add: js_shift_def)
      with q dq sq nq show ?thesis by auto
    next
      case nf: False
      let ?j = "nat (js_indexOf (fifoQueue s) v)"
      from js_indexOf_in [OF vq] have j: "0 \<le> js_indexOf (fifoQueue s) v"
        "js_indexOf (fifoQueue s) v < int (length (fifoQueue s))"
        by simp_all
      hence "js_indexOf (fifoQueue s) v \<noteq> - 1" by simp
      with access_full [OF assms(1) notin False, of pages i] nf js_splice_replace [OF j]
      have "fifoQueue (access pages C algo pg i s) = (fifoQueue s)[?j := pg]"
        by (simp add: v(2) indexOf_opt_def)
      with replace_distinct [OF dq vq nq] sq show ?thesis by simp
    qed
    from mem' m1 m2 q' le show ?thesis by (simp add: wf_def)
  qed
qed

lemma wf_run:
  assumes "recognized algo" and "1 \<le> C"
  shows "wf C (run pages C algo n)"
proof (induction n)
  case 0
  from assms(2) show ?case by (simp add: wf_def init_def)
next
  case (Suc n)
  from wf_access [OF assms Suc] show ?case by simp
qed


section \<open>The three kinds of step\<close>

lemma run_counts_filter:
  assumes "recognized algo"
  shows "faults (run pages C algo n) = length (filter (\<lambda>r. \<not> hit r) (result (run pages C algo n)))
       \<and> hits (run pages C algo n) = length (filter hit (result (run pages C algo n)))"
proof (induction n)
  case 0
  show ?case by (simp add: init_def)
next
  case (Suc n)
  from access_record [OF assms, of pages C "pages ! n" n "run pages C algo n"] Suc
  show ?case by auto
qed

lemma step_index_page:
  assumes "recognized algo" and "i < length pages"
  shows "index (steps (computeSteps pages C algo) ! i) = i"
    and "page (steps (computeSteps pages C algo) ! i) = pages ! i"
    and "hit (steps (computeSteps pages C algo) ! i)
           = (pages ! i \<in> set (before (steps (computeSteps pages C algo)) i))"
proof -
  from access_record [OF assms(1), of pages C "pages ! i" i "run pages C algo i"]
  obtain r where r: "result (access pages C algo (pages ! i) i (run pages C algo i))
                       = result (run pages C algo i) @ [r]"
    "index r = i" "page r = pages ! i" "hit r = (pages ! i \<in> set (memory (run pages C algo i)))"
    by blast
  from r(1) step_view(2) [OF assms, of C] have st: "steps (computeSteps pages C algo) ! i = r"
    by simp
  from st r(2) show "index (steps (computeSteps pages C algo) ! i) = i" by simp
  from st r(3) show "page (steps (computeSteps pages C algo) ! i) = pages ! i" by simp
  from st r(4) step_view(1) [OF assms, of C]
  show "hit (steps (computeSteps pages C algo) ! i)
           = (pages ! i \<in> set (before (steps (computeSteps pages C algo)) i))"
    by simp
qed

lemma step_cases:
  assumes "recognized algo" and "1 \<le> C" and "i < length pages"
  shows "int (length (before (steps (computeSteps pages C algo)) i)) \<le> C
    \<and> distinct (before (steps (computeSteps pages C algo)) i)
    \<and> ((pages ! i \<in> set (before (steps (computeSteps pages C algo)) i)
         \<and> steps (computeSteps pages C algo) ! i
             = \<lparr> index = i, page = pages ! i,
                 memory_clone = before (steps (computeSteps pages C algo)) i,
                 hit = True, replacedIndex = - 1, info = Hit \<rparr>)
       \<or> (pages ! i \<notin> set (before (steps (computeSteps pages C algo)) i)
         \<and> int (length (before (steps (computeSteps pages C algo)) i)) < C
         \<and> steps (computeSteps pages C algo) ! i
             = \<lparr> index = i, page = pages ! i,
                 memory_clone = before (steps (computeSteps pages C algo)) i @ [pages ! i],
                 hit = False,
                 replacedIndex = int (length (before (steps (computeSteps pages C algo)) i)),
                 info = PlacedIntoFreeSlot \<rparr>)
       \<or> (pages ! i \<notin> set (before (steps (computeSteps pages C algo)) i)
         \<and> int (length (before (steps (computeSteps pages C algo)) i)) = C
         \<and> (\<exists>v k. selected pages algo i (run pages C algo i) = Some v
               \<and> k < length (before (steps (computeSteps pages C algo)) i)
               \<and> before (steps (computeSteps pages C algo)) i ! k = v
               \<and> steps (computeSteps pages C algo) ! i
                   = \<lparr> index = i, page = pages ! i,
                       memory_clone = (before (steps (computeSteps pages C algo)) i)[k := pages ! i],
                       hit = False, replacedIndex = int k,
                       info = replaced_info algo (Some v) \<rparr>)))"
proof -
  let ?s = "run pages C algo i"
  let ?pg = "pages ! i"
  have bef: "before (steps (computeSteps pages C algo)) i = memory ?s"
    by (rule step_view(1) [OF assms(1,3)])
  have st: "steps (computeSteps pages C algo) ! i = last (result (access pages C algo ?pg i ?s))"
    by (rule step_view(2) [OF assms(1,3)])
  have wf: "wf C ?s" by (rule wf_run [OF assms(1,2)])
  hence le: "int (length (memory ?s)) \<le> C" and d: "distinct (memory ?s)"
    by (simp_all add: wf_def)
  show ?thesis
  proof (cases "?pg \<in> set (memory ?s)")
    case True
    hence "last (result (access pages C algo ?pg i ?s))
             = \<lparr> index = i, page = ?pg, memory_clone = memory ?s,
                 hit = True, replacedIndex = - 1, info = Hit \<rparr>"
      by (simp add: access_hit)
    with True le d show ?thesis unfolding bef st by simp
  next
    case notin: False
    show ?thesis
    proof (cases "int (length (memory ?s)) < C")
      case True
      with notin have "last (result (access pages C algo ?pg i ?s))
             = \<lparr> index = i, page = ?pg, memory_clone = memory ?s @ [?pg],
                 hit = False, replacedIndex = int (length (memory ?s)),
                 info = PlacedIntoFreeSlot \<rparr>"
        by (simp add: access_free)
      with True notin le d show ?thesis unfolding bef st by simp
    next
      case False
      with le have full: "int (length (memory ?s)) = C" by simp
      from access_replace [OF assms(1,2) wf notin False, of pages i]
      obtain v k where "selected pages algo i ?s = Some v" "k < length (memory ?s)"
        "memory ?s ! k = v"
        "last (result (access pages C algo ?pg i ?s))
               = \<lparr> index = i, page = ?pg, memory_clone = (memory ?s)[k := ?pg], hit = False,
                   replacedIndex = int k, info = replaced_info algo (Some v) \<rparr>"
        by blast
      hence "\<exists>v k. selected pages algo i ?s = Some v \<and> k < length (memory ?s)
               \<and> memory ?s ! k = v
               \<and> last (result (access pages C algo ?pg i ?s))
                   = \<lparr> index = i, page = ?pg, memory_clone = (memory ?s)[k := ?pg],
                       hit = False, replacedIndex = int k,
                       info = replaced_info algo (Some v) \<rparr>"
        by blast
      with notin full le d show ?thesis unfolding bef st by simp
    qed
  qed
qed


section \<open>Recency, next use and arrival order\<close>

subsection \<open>What \<open>lastUse\<close> and \<open>nextUse\<close> denote\<close>

lemma js_lastIndexOf_ge: "- 1 \<le> js_lastIndexOf xs x"
  by (induction xs) (auto simp: Let_def)

lemma js_lastIndexOf_snoc:
  "js_lastIndexOf (xs @ [y]) x = (if y = x then int (length xs) else js_lastIndexOf xs x)"
proof (induction xs)
  case Nil
  show ?case by simp
next
  case (Cons z zs)
  have "- 1 \<le> js_lastIndexOf zs x" by (rule js_lastIndexOf_ge)
  with Cons show ?case by (auto simp: Let_def)
qed

lemma lastUse_0: "lastUse pages 0 p = - 1"
  by (simp add: lastUse_def)

lemma lastUse_Suc:
  "n < length pages \<Longrightarrow>
   lastUse pages (Suc n) p = (if pages ! n = p then int n else lastUse pages n p)"
  by (simp add: lastUse_def take_Suc_conv_app_nth js_lastIndexOf_snoc)

text \<open>\<open>lastUse pages i p\<close> is the largest index below \<open>i\<close> that accesses \<open>p\<close>, and \<open>-1\<close> if there is none.\<close>

lemma lastUse_largest:
  assumes "i \<le> length pages"
  shows "(lastUse pages i p = - 1 \<and> (\<forall>j<i. pages ! j \<noteq> p))
       \<or> (0 \<le> lastUse pages i p \<and> nat (lastUse pages i p) < i
           \<and> pages ! nat (lastUse pages i p) = p
           \<and> (\<forall>j<i. nat (lastUse pages i p) < j \<longrightarrow> pages ! j \<noteq> p))"
  using assms
proof (induction i)
  case 0
  show ?case by (simp add: lastUse_0)
next
  case (Suc i)
  hence lt: "i < length pages" and le: "i \<le> length pages" by simp_all
  show ?case
  proof (cases "pages ! i = p")
    case True
    with lt show ?thesis by (simp add: lastUse_Suc)
  next
    case False
    from Suc.IH [OF le] False show ?thesis
      unfolding lastUse_Suc [OF lt] by (auto simp: less_Suc_eq)
  qed
qed

text \<open>
  \<open>nextUse pages i p\<close> is \<open>None\<close> when \<open>p\<close> is not accessed after \<open>i\<close>, and otherwise \<open>Some d\<close>
  where \<open>i + 1 + d\<close> is the smallest index above \<open>i\<close> that accesses \<open>p\<close>.
\<close>

lemma nextUse_smallest:
  "(nextUse pages i p = None \<and> (\<forall>j. i < j \<and> j < length pages \<longrightarrow> pages ! j \<noteq> p))
   \<or> (\<exists>d. nextUse pages i p = Some d \<and> i + 1 + d < length pages \<and> pages ! (i + 1 + d) = p
          \<and> (\<forall>j. i < j \<and> j < i + 1 + d \<longrightarrow> pages ! j \<noteq> p))"
proof (cases "p \<in> set (drop (i + 1) pages)")
  case False
  have "\<forall>j. i < j \<and> j < length pages \<longrightarrow> pages ! j \<noteq> p"
  proof (intro allI impI)
    fix j assume j: "i < j \<and> j < length pages"
    hence "j - (i + 1) < length (drop (i + 1) pages)" by auto
    hence "drop (i + 1) pages ! (j - (i + 1)) \<in> set (drop (i + 1) pages)" by (rule nth_mem)
    moreover from j have "drop (i + 1) pages ! (j - (i + 1)) = pages ! j" by simp
    ultimately show "pages ! j \<noteq> p" using False by auto
  qed
  with False show ?thesis by (simp add: nextUse_def)
next
  case True
  let ?f = "drop (i + 1) pages"
  let ?d = "nat (js_indexOf ?f p)"
  from js_indexOf_nat [OF True] have d: "?d < length ?f" and at: "?f ! ?d = p" by simp_all
  from d have a: "i + 1 + ?d < length pages" by simp
  with at have b: "pages ! (i + 1 + ?d) = p" by simp
  have c: "\<forall>j. i < j \<and> j < i + 1 + ?d \<longrightarrow> pages ! j \<noteq> p"
  proof (intro allI impI)
    fix j assume j: "i < j \<and> j < i + 1 + ?d"
    hence "j - (i + 1) < ?d" by auto
    from js_indexOf_first [OF True this] have "?f ! (j - (i + 1)) \<noteq> p" .
    moreover from j a have "?f ! (j - (i + 1)) = pages ! j" by simp
    ultimately show "pages ! j \<noteq> p" by simp
  qed
  from True a b c show ?thesis by (simp add: nextUse_def)
qed

subsection \<open>LRU: the timestamps of the resident pages\<close>

lemma lru_lastUsed:
  assumes "1 \<le> C"
  shows "n \<le> length pages \<Longrightarrow>
         \<forall>p\<in>set (memory (run pages C ''lru'' n)).
            last_of (lastUsed (run pages C ''lru'' n)) p = lastUse pages n p"
proof (induction n)
  case 0
  show ?case by (simp add: init_def)
next
  case (Suc n)
  hence lt: "n < length pages" and le: "n \<le> length pages" by simp_all
  let ?s = "run pages C ''lru'' n"
  let ?pg = "pages ! n"
  have rec: "recognized ''lru''" by (simp add: recognized_def)
  have wf: "wf C ?s" by (rule wf_run [OF rec assms])
  note IH = Suc.IH [OF le]
  show ?case
  proof (cases "?pg \<in> set (memory ?s)")
    case True
    with IH show ?thesis
      by (simp add: access_hit lastUse_Suc [OF lt] last_of_def)
  next
    case notin: False
    show ?thesis
    proof (cases "int (length (memory ?s)) < C")
      case True
      with notin IH show ?thesis
        by (simp add: access_free lastUse_Suc [OF lt] last_of_def)
    next
      case False
      from assms False have ne: "memory ?s \<noteq> []" by auto
      from selected_resident [OF rec wf ne, of pages n] obtain v where
        v: "v \<in> set (memory ?s)" "selected pages ''lru'' n ?s = Some v"
        by blast
      hence fst: "fst (lru_scan (lastUsed ?s) (memory ?s) (None, Infinity)) = Some v"
        by (simp add: selected_def)
      from wf have dm: "distinct (memory ?s)" by (simp add: wf_def)
      from js_indexOf_in [OF v(1)] have k: "0 \<le> js_indexOf (memory ?s) v"
        "js_indexOf (memory ?s) v < int (length (memory ?s))"
        by simp_all
      have mem': "memory (access pages C ''lru'' ?pg n ?s)
                    = (memory ?s)[nat (js_indexOf (memory ?s) v) := ?pg]"
        using access_full [OF rec notin False, of pages n] js_splice_replace [OF k]
        by (simp add: v(2) indexOf_opt_def)
      have lu': "lastUsed (access pages C ''lru'' ?pg n ?s)
                    = ((lastUsed ?s)(v := None))(?pg \<mapsto> n)"
        using notin False fst by (simp add: access_lru [OF notin False refl] map_delete_def)
      have set': "set (memory (access pages C ''lru'' ?pg n ?s))
                    = insert ?pg (set (memory ?s) - {v})"
        unfolding mem' by (rule replace_distinct(2) [OF dm v(1) notin])
      show ?thesis
      proof
        fix p assume "p \<in> set (memory (run pages C ''lru'' (Suc n)))"
        hence p: "p = ?pg \<or> (p \<in> set (memory ?s) \<and> p \<noteq> v)" by (simp add: set')
        show "last_of (lastUsed (run pages C ''lru'' (Suc n))) p = lastUse pages (Suc n) p"
        proof (cases "p = ?pg")
          case True
          thus ?thesis by (simp add: lu' lastUse_Suc [OF lt] last_of_def)
        next
          case False
          with p have "p \<in> set (memory ?s)" "p \<noteq> v" by simp_all
          with IH False show ?thesis
            by (simp add: lu' lastUse_Suc [OF lt] last_of_def)
        qed
      qed
    qed
  qed
qed


subsection \<open>FIFO: the arrival queue is ordered by placement\<close>

lemma placedAt_Nil: "placedAt [] p = None"
  by (simp add: placedAt_def)




subsection \<open>The step of a fault with all frames full\<close>

lemma full_fault_view:
  assumes "recognized algo" and "1 \<le> C" and "i < length pages"
    and "\<not> hit (steps (computeSteps pages C algo) ! i)"
    and "int (length (before (steps (computeSteps pages C algo)) i)) = C"
  shows "\<exists>v k. selected pages algo i (run pages C algo i) = Some v
           \<and> k < length (memory (run pages C algo i))
           \<and> memory (run pages C algo i) ! k = v
           \<and> replacedIndex (steps (computeSteps pages C algo) ! i) = int k
           \<and> info (steps (computeSteps pages C algo) ! i) = replaced_info algo (Some v)"
    and "before (steps (computeSteps pages C algo)) i = memory (run pages C algo i)"
    and "distinct (memory (run pages C algo i))"
    and "memory (run pages C algo i) \<noteq> []"
proof -
  let ?prev = "before (steps (computeSteps pages C algo)) i"
  let ?st = "steps (computeSteps pages C algo) ! i"
  show bef: "?prev = memory (run pages C algo i)"
    by (rule step_view(1) [OF assms(1,3)])
  from wf_run [OF assms(1,2), of pages i] show "distinct (memory (run pages C algo i))"
    by (simp add: wf_def)
  from assms(2,5) show "memory (run pages C algo i) \<noteq> []" unfolding bef by auto
  from step_cases [OF assms(1,2,3)]
  have alt: "(pages ! i \<in> set ?prev
         \<and> ?st = \<lparr> index = i, page = pages ! i, memory_clone = ?prev,
                   hit = True, replacedIndex = - 1, info = Hit \<rparr>)
       \<or> (pages ! i \<notin> set ?prev \<and> int (length ?prev) < C
         \<and> ?st = \<lparr> index = i, page = pages ! i, memory_clone = ?prev @ [pages ! i],
                   hit = False, replacedIndex = int (length ?prev),
                   info = PlacedIntoFreeSlot \<rparr>)
       \<or> (pages ! i \<notin> set ?prev \<and> int (length ?prev) = C
         \<and> (\<exists>v k. selected pages algo i (run pages C algo i) = Some v
               \<and> k < length ?prev \<and> ?prev ! k = v
               \<and> ?st = \<lparr> index = i, page = pages ! i, memory_clone = ?prev[k := pages ! i],
                         hit = False, replacedIndex = int k,
                         info = replaced_info algo (Some v) \<rparr>))"
    by blast
  from alt assms(4,5)
  have "\<exists>v k. selected pages algo i (run pages C algo i) = Some v
               \<and> k < length ?prev \<and> ?prev ! k = v
               \<and> ?st = \<lparr> index = i, page = pages ! i, memory_clone = ?prev[k := pages ! i],
                         hit = False, replacedIndex = int k,
                         info = replaced_info algo (Some v) \<rparr>"
    by auto
  then obtain v k where "selected pages algo i (run pages C algo i) = Some v"
    "k < length ?prev" "?prev ! k = v"
    "?st = \<lparr> index = i, page = pages ! i, memory_clone = ?prev[k := pages ! i],
                         hit = False, replacedIndex = int k,
                         info = replaced_info algo (Some v) \<rparr>"
    by blast
  hence "selected pages algo i (run pages C algo i) = Some v
           \<and> k < length (memory (run pages C algo i))
           \<and> memory (run pages C algo i) ! k = v
           \<and> replacedIndex ?st = int k
           \<and> info ?st = replaced_info algo (Some v)"
    unfolding bef by simp
  thus "\<exists>v k. selected pages algo i (run pages C algo i) = Some v
           \<and> k < length (memory (run pages C algo i))
           \<and> memory (run pages C algo i) ! k = v
           \<and> replacedIndex ?st = int k
           \<and> info ?st = replaced_info algo (Some v)"
    by blast
qed

lemma distinct_split_index:
  assumes "distinct xs" and "xs = ys @ v # zs" and "k < length xs" and "xs ! k = v"
  shows "k = length ys"
proof -
  from assms(2) have l: "length ys < length xs" and a: "xs ! length ys = v" by simp_all
  from a assms(4) have "xs ! k = xs ! length ys" by simp
  with nth_eq_iff_index_eq [OF assms(1,3) l] show ?thesis by simp
qed

lemma nextUse_None: "(nextUse pages i p = None) = (p \<notin> set (drop (i + 1) pages))"
  by (simp add: nextUse_def)

lemma nextUse_Some:
  "p \<in> set (drop (i + 1) pages) \<Longrightarrow>
   nextUse pages i p = Some (nat (js_indexOf (drop (i + 1) pages) p))"
  by (simp add: nextUse_def)

lemma js_lastIndexOf_notin: "(js_lastIndexOf xs x = - 1) = (x \<notin> set xs)"
proof (induction xs)
  case Nil
  show ?case by simp
next
  case (Cons y ys)
  have "- 1 \<le> js_lastIndexOf ys x" by (rule js_lastIndexOf_ge)
  with Cons show ?case by (auto simp: Let_def)
qed

lemma lastUse_nonneg: "p \<in> set (take i pages) \<Longrightarrow> 0 \<le> lastUse pages i p"
  using js_lastIndexOf_ge [of "take i pages" p] js_lastIndexOf_notin [of "take i pages" p]
  by (simp add: lastUse_def)

lemma memory_access_subset:
  assumes "recognized algo" and "1 \<le> C" and "wf C s"
  shows "set (memory (access pages C algo pg i s)) \<subseteq> insert pg (set (memory s))"
proof (cases "pg \<in> set (memory s)")
  case True
  thus ?thesis by (auto simp: access_hit)
next
  case notin: False
  show ?thesis
  proof (cases "int (length (memory s)) < C")
    case True
    with notin show ?thesis by (auto simp: access_free)
  next
    case False
    from access_replace [OF assms notin False, of pages i] obtain k where
      "memory (access pages C algo pg i s) = (memory s)[k := pg]"
      by blast
    thus ?thesis using set_update_subset_insert [of "memory s" k pg] by simp
  qed
qed

lemma resident_accessed:
  assumes "recognized algo" and "1 \<le> C"
  shows "n \<le> length pages \<Longrightarrow> set (memory (run pages C algo n)) \<subseteq> set (take n pages)"
proof (induction n)
  case 0
  show ?case by (simp add: init_def)
next
  case (Suc n)
  hence lt: "n < length pages" and le: "n \<le> length pages" by simp_all
  from memory_access_subset [OF assms wf_run [OF assms, of pages n],
         where pages = pages and pg = "pages ! n" and i = n]
  have "set (memory (run pages C algo (Suc n)))
          \<subseteq> insert (pages ! n) (set (memory (run pages C algo n)))"
    by simp
  with Suc.IH [OF le] show ?case
    by (auto simp: take_Suc_conv_app_nth [OF lt])
qed

text \<open>The frames after such a step: the selected page is gone and the accessed one is in its slot.\<close>

lemma full_fault_frames:
  assumes "recognized algo" and "1 \<le> C" and "i < length pages"
    and "\<not> hit (steps (computeSteps pages C algo) ! i)"
    and "int (length (before (steps (computeSteps pages C algo)) i)) = C"
  shows "memory_clone (steps (computeSteps pages C algo) ! i)
           = (before (steps (computeSteps pages C algo)) i)
               [nat (replacedIndex (steps (computeSteps pages C algo) ! i)) := pages ! i]
       \<and> before (steps (computeSteps pages C algo)) i
            ! nat (replacedIndex (steps (computeSteps pages C algo) ! i))
           \<notin> set (memory_clone (steps (computeSteps pages C algo) ! i))
       \<and> pages ! i \<in> set (memory_clone (steps (computeSteps pages C algo) ! i))
       \<and> pages ! i \<notin> set (before (steps (computeSteps pages C algo)) i)"
proof -
  let ?prev = "before (steps (computeSteps pages C algo)) i"
  let ?st = "steps (computeSteps pages C algo) ! i"
  from step_cases [OF assms(1,2,3)]
  have d: "distinct ?prev"
    and alt: "(pages ! i \<in> set ?prev
         \<and> ?st = \<lparr> index = i, page = pages ! i, memory_clone = ?prev,
                   hit = True, replacedIndex = - 1, info = Hit \<rparr>)
       \<or> (pages ! i \<notin> set ?prev \<and> int (length ?prev) < C
         \<and> ?st = \<lparr> index = i, page = pages ! i, memory_clone = ?prev @ [pages ! i],
                   hit = False, replacedIndex = int (length ?prev),
                   info = PlacedIntoFreeSlot \<rparr>)
       \<or> (pages ! i \<notin> set ?prev \<and> int (length ?prev) = C
         \<and> (\<exists>v k. selected pages algo i (run pages C algo i) = Some v
               \<and> k < length ?prev \<and> ?prev ! k = v
               \<and> ?st = \<lparr> index = i, page = pages ! i, memory_clone = ?prev[k := pages ! i],
                         hit = False, replacedIndex = int k,
                         info = replaced_info algo (Some v) \<rparr>))"
    by blast+
  from alt assms(4,5)
  have "pages ! i \<notin> set ?prev
         \<and> (\<exists>v k. k < length ?prev \<and> ?prev ! k = v
               \<and> ?st = \<lparr> index = i, page = pages ! i, memory_clone = ?prev[k := pages ! i],
                         hit = False, replacedIndex = int k,
                         info = replaced_info algo (Some v) \<rparr>)"
    by auto
  then obtain v k where notin: "pages ! i \<notin> set ?prev" and k: "k < length ?prev"
    and v: "?prev ! k = v"
    and st: "?st = \<lparr> index = i, page = pages ! i, memory_clone = ?prev[k := pages ! i],
                         hit = False, replacedIndex = int k,
                         info = replaced_info algo (Some v) \<rparr>"
    by blast
  from d k have "js_indexOf ?prev (?prev ! k) = int k" by (rule js_indexOf_nth)
  hence kk: "nat (js_indexOf ?prev v) = k" by (simp add: v)
  from k v have vin: "v \<in> set ?prev" by auto
  from replace_distinct(2) [OF d vin notin] kk
  have set': "set (?prev[k := pages ! i]) = insert (pages ! i) (set ?prev - {v})" by simp
  with notin vin have "v \<notin> set (?prev[k := pages ! i])" "pages ! i \<in> set (?prev[k := pages ! i])"
    by auto
  with st v notin show ?thesis by simp
qed


section \<open>The two simulators agree\<close>

subsection \<open>The branches of the callback of \<^verbatim>\<open>simulate\<close>\<close>

lemma sim_access_hit:
  "pg \<in> set (sim_memory t) \<Longrightarrow>
   sim_access pages C algo pg i t =
     t\<lparr> rendered_steps := rendered_steps t @
          [\<lparr> shown_page = pg, shown_memory = sim_memory t, shown_hit = True \<rparr>] \<rparr>"
  by (simp add: sim_access_def js_includes_def)

lemma sim_access_free:
  "pg \<notin> set (sim_memory t) \<Longrightarrow> int (length (sim_memory t)) < C \<Longrightarrow>
   sim_access pages C algo pg i t =
     t\<lparr> sim_faults := sim_faults t + 1,
        sim_memory := sim_memory t @ [pg],
        rendered_steps := rendered_steps t @
          [\<lparr> shown_page = pg, shown_memory = sim_memory t @ [pg], shown_hit = False \<rparr>] \<rparr>"
  by (simp add: sim_access_def js_includes_def Let_def)

lemma sim_access_fifo:
  "pg \<notin> set (sim_memory t) \<Longrightarrow> \<not> int (length (sim_memory t)) < C \<Longrightarrow>
   sim_access pages C ''fifo'' pg i t =
     t\<lparr> sim_faults := sim_faults t + 1,
        sim_memory := snd (js_shift (sim_memory t)) @ [pg],
        rendered_steps := rendered_steps t @
          [\<lparr> shown_page = pg, shown_memory = snd (js_shift (sim_memory t)) @ [pg],
             shown_hit = False \<rparr>] \<rparr>"
  by (simp add: sim_access_def js_includes_def Let_def)

lemma strict_indexOf_eq: "x \<noteq> NaN \<Longrightarrow> strict_indexOf xs x = js_indexOf xs x"
  by (induction xs) (auto simp: strict_equal_def Let_def)

lemma strict_lastIndexOf_eq: "x \<noteq> NaN \<Longrightarrow> strict_lastIndexOf xs x = js_lastIndexOf xs x"
  by (induction xs) (auto simp: strict_equal_def Let_def)

lemma strict_indexOf_NaN: "strict_indexOf xs NaN = - 1"
  by (induction xs) (auto simp: strict_equal_def Let_def)

lemma sim_access_lru:
  assumes "pg \<notin> set (sim_memory t)" and "\<not> int (length (sim_memory t)) < C"
    and "NaN \<notin> set (sim_memory t)"
    and "indexes = map (\<lambda>m. Num (lastUse pages i m)) (sim_memory t)"
  shows "sim_access pages C ''lru'' pg i t =
     t\<lparr> sim_faults := sim_faults t + 1,
        sim_memory := js_splice (sim_memory t) (js_indexOf indexes (Math_min indexes)) 1 [] @ [pg],
        rendered_steps := rendered_steps t @
          [\<lparr> shown_page = pg,
             shown_memory =
               js_splice (sim_memory t) (js_indexOf indexes (Math_min indexes)) 1 [] @ [pg],
             shown_hit = False \<rparr>] \<rparr>"
proof -
  have ix: "map (\<lambda>m. if strict_lastIndexOf (take i pages) m = - 1 then Num (- 1)
                      else Num (strict_lastIndexOf (take i pages) m)) (sim_memory t)
            = indexes"
    unfolding assms(4)
  proof (intro map_cong refl)
    fix m assume "m \<in> set (sim_memory t)"
    with assms(3) have "m \<noteq> NaN" by auto
    thus "(if strict_lastIndexOf (take i pages) m = - 1 then Num (- 1)
           else Num (strict_lastIndexOf (take i pages) m)) = Num (lastUse pages i m)"
      by (simp add: lastUse_def strict_lastIndexOf_eq)
  qed
  from assms(1,2) show ?thesis
    by (simp add: sim_access_def js_includes_def Let_def ix)
qed

lemma sim_access_optimal:
  assumes "pg \<notin> set (sim_memory t)" and "\<not> int (length (sim_memory t)) < C"
    and "NaN \<notin> set (sim_memory t)"
    and "indexes = map (\<lambda>m. if js_indexOf (drop (i + 1) pages) m = - 1 then Infinity
                       else Num (js_indexOf (drop (i + 1) pages) m)) (sim_memory t)"
  shows "sim_access pages C ''optimal'' pg i t =
     t\<lparr> sim_faults := sim_faults t + 1,
        sim_memory := js_splice (sim_memory t) (js_indexOf indexes (Math_max indexes)) 1 [] @ [pg],
        rendered_steps := rendered_steps t @
          [\<lparr> shown_page = pg,
             shown_memory =
               js_splice (sim_memory t) (js_indexOf indexes (Math_max indexes)) 1 [] @ [pg],
             shown_hit = False \<rparr>] \<rparr>"
proof -
  have ix: "map (\<lambda>m. if strict_indexOf (drop (Suc i) pages) m = - 1 then Infinity
                      else Num (strict_indexOf (drop (Suc i) pages) m)) (sim_memory t)
            = indexes"
    unfolding assms(4)
  proof (intro map_cong refl)
    fix m assume "m \<in> set (sim_memory t)"
    with assms(3) have "m \<noteq> NaN" by auto
    thus "(if strict_indexOf (drop (Suc i) pages) m = - 1 then Infinity
           else Num (strict_indexOf (drop (Suc i) pages) m))
          = (if js_indexOf (drop (i + 1) pages) m = - 1 then Infinity
             else Num (js_indexOf (drop (i + 1) pages) m))"
      by (simp add: strict_indexOf_eq)
  qed
  from assms(1,2) show ?thesis
    by (simp add: sim_access_def js_includes_def Let_def ix cong: if_cong)
qed

lemma sim_access_record:
  "\<exists>r. rendered_steps (sim_access pages C algo pg i t) = rendered_steps t @ [r]
       \<and> shown_page r = pg \<and> shown_hit r = (pg \<in> set (sim_memory t))
       \<and> sim_faults (sim_access pages C algo pg i t)
           = sim_faults t + (if pg \<in> set (sim_memory t) then 0 else 1)"
  by (simp add: sim_access_def js_includes_def Let_def)

subsection \<open>\<^verbatim>\<open>Math.min\<close> and \<^verbatim>\<open>Math.max\<close> over the computed indexes\<close>

lemma fold_min_Num:
  "\<exists>b. fold (\<lambda>x m. if lt x m then x else m) (map (\<lambda>q. Num (key q)) qs) (Num a) = Num b
       \<and> b \<le> a \<and> (\<forall>q\<in>set qs. b \<le> key q) \<and> (b = a \<or> b \<in> key ` set qs)"
proof (induction qs arbitrary: a)
  case Nil
  show ?case by simp
next
  case (Cons q qs)
  show ?case
  proof (cases "key q < a")
    case True
    from Cons [of "key q"] True show ?thesis by auto
  next
    case False
    from Cons [of a] False show ?thesis by auto
  qed
qed

lemma Math_min_Num:
  assumes "qs \<noteq> []"
  shows "\<exists>b. Math_min (map (\<lambda>q. Num (key q)) qs) = Num b
           \<and> (\<forall>q\<in>set qs. b \<le> key q) \<and> b \<in> key ` set qs"
proof -
  from assms obtain p ps where qs: "qs = p # ps" by (cases qs) auto
  from fold_min_Num [of key ps "key p"] show ?thesis
    by (auto simp: qs Math_min_def)
qed

lemma fold_max_Num:
  "\<exists>b. fold (\<lambda>x m. if lt m x then x else m) (map (\<lambda>q. Num (key q)) qs) (Num a) = Num b
       \<and> a \<le> b \<and> (\<forall>q\<in>set qs. key q \<le> b) \<and> (b = a \<or> b \<in> key ` set qs)"
proof (induction qs arbitrary: a)
  case Nil
  show ?case by simp
next
  case (Cons q qs)
  show ?case
  proof (cases "a < key q")
    case True
    from Cons [of "key q"] True show ?thesis by auto
  next
    case False
    from Cons [of a] False show ?thesis by auto
  qed
qed

lemma Math_max_Num:
  assumes "qs \<noteq> []"
  shows "\<exists>b. Math_max (map (\<lambda>q. Num (key q)) qs) = Num b
           \<and> (\<forall>q\<in>set qs. key q \<le> b) \<and> b \<in> key ` set qs"
proof -
  from assms obtain p ps where qs: "qs = p # ps" by (cases qs) auto
  from fold_max_Num [of key ps "key p"] show ?thesis
    by (auto simp: qs Math_max_def)
qed

lemma lt_Infinity_left: "lt Infinity x = False"
  by (cases x) simp_all

lemma fold_max_Infinity_acc:
  "fold (\<lambda>x m. if lt m x then x else m) xs Infinity = Infinity"
  by (induction xs) (simp_all add: lt_Infinity_left)

lemma fold_max_Infinity:
  "Infinity \<in> set xs \<Longrightarrow> fold (\<lambda>x m. if lt m x then x else m) xs a = Infinity"
proof (induction xs arbitrary: a)
  case Nil
  then show ?case by simp
next
  case (Cons x xs)
  show ?case
  proof (cases "x = Infinity")
    case True
    have "(if lt a Infinity then Infinity else a) = Infinity" by (cases a) simp_all
    with True show ?thesis by (simp add: fold_max_Infinity_acc)
  next
    case False
    with Cons.prems have "Infinity \<in> set xs" by simp
    from Cons.IH [OF this] show ?thesis by simp
  qed
qed

lemma Math_max_Infinity: "Infinity \<in> set xs \<Longrightarrow> Math_max xs = Infinity"
  by (simp add: Math_max_def fold_max_Infinity)

subsection \<open>Removing one resident page and pushing the new one\<close>

lemma remove_push:
  assumes "distinct xs" and "r < length xs" and "pg \<notin> set xs"
  shows "js_splice xs (int r) 1 [] @ [pg] = take r xs @ drop (Suc r) xs @ [pg]"
    and "distinct (js_splice xs (int r) 1 [] @ [pg])"
    and "set (js_splice xs (int r) 1 [] @ [pg]) = insert pg (set xs - {xs ! r})"
    and "length (js_splice xs (int r) 1 [] @ [pg]) = length xs"
proof -
  from assms(2) have a: "0 \<le> int r" "int r < int (length xs)" by simp_all
  have sp: "js_splice xs (int r) 1 [] = take r xs @ drop (Suc r) xs"
    using js_splice_at [OF a, of "[]"] by simp
  show "js_splice xs (int r) 1 [] @ [pg] = take r xs @ drop (Suc r) xs @ [pg]"
    by (simp add: sp)
  from id_take_nth_drop [OF assms(2)] have xs: "xs = take r xs @ xs ! r # drop (Suc r) xs" .
  with assms(1) have d: "distinct (take r xs @ xs ! r # drop (Suc r) xs)" by simp
  from assms(3) have n1: "pg \<notin> set (take r xs)" and n2: "pg \<notin> set (drop (Suc r) xs)"
    by (auto dest: in_set_takeD in_set_dropD)
  from d n1 n2 show "distinct (js_splice xs (int r) 1 [] @ [pg])" unfolding sp by auto
  have "set xs = set (take r xs) \<union> {xs ! r} \<union> set (drop (Suc r) xs)"
    by (subst xs) auto
  moreover from d have "xs ! r \<notin> set (take r xs)" "xs ! r \<notin> set (drop (Suc r) xs)" by auto
  ultimately show "set (js_splice xs (int r) 1 [] @ [pg]) = insert pg (set xs - {xs ! r})"
    unfolding sp by auto
  from assms(2) show "length (js_splice xs (int r) 1 [] @ [pg]) = length xs"
    unfolding sp by simp
qed

subsection \<open>The array of \<^verbatim>\<open>simulate\<close> holds pages that were accessed\<close>

lemma set_js_splice_Nil: "set (js_splice xs k d []) \<subseteq> set xs"
  by (auto simp: js_splice_def Let_def dest: in_set_takeD in_set_dropD)

lemma set_js_shift: "set (snd (js_shift xs)) \<subseteq> set xs"
  by (cases xs) (auto simp: js_shift_def)

lemma sim_memory_subset:
  "set (sim_memory (sim_access pages C algo pg i t)) \<subseteq> insert pg (set (sim_memory t))"
  using set_js_splice_Nil [of "sim_memory t"] set_js_shift [of "sim_memory t"]
  by (auto simp: sim_access_def js_includes_def Let_def)

lemma sim_resident_accessed:
  "n \<le> length pages \<Longrightarrow> set (sim_memory (sim_run pages C algo n)) \<subseteq> set (take n pages)"
proof (induction n)
  case 0
  show ?case by (simp add: sim_init_def)
next
  case (Suc n)
  hence lt: "n < length pages" and le: "n \<le> length pages" by simp_all
  from sim_memory_subset [of pages C algo "pages ! n" n "sim_run pages C algo n"]
  have "set (sim_memory (sim_run pages C algo (Suc n)))
          \<subseteq> insert (pages ! n) (set (sim_memory (sim_run pages C algo n)))"
    by simp
  with Suc.IH [OF le] show ?case
    by (auto simp: take_Suc_conv_app_nth [OF lt])
qed


subsection \<open>From agreement on residency to agreement on what is observed\<close>

lemma observed_agree:
  assumes "recognized algo"
    and agree: "\<And>n. n < length pages \<Longrightarrow>
           (pages ! n \<in> set (memory (run pages C algo n)))
             = (pages ! n \<in> set (sim_memory (sim_run pages C algo n)))"
  shows "n \<le> length pages \<Longrightarrow>
         map hit (result (run pages C algo n))
           = map shown_hit (rendered_steps (sim_run pages C algo n))
       \<and> map page (result (run pages C algo n))
           = map shown_page (rendered_steps (sim_run pages C algo n))
       \<and> faults (run pages C algo n) = sim_faults (sim_run pages C algo n)"
proof (induction n)
  case 0
  show ?case by (simp add: init_def sim_init_def)
next
  case (Suc n)
  hence lt: "n < length pages" and le: "n \<le> length pages" by simp_all
  let ?s = "run pages C algo n"
  let ?t = "sim_run pages C algo n"
  from access_record [OF assms(1), of pages C "pages ! n" n ?s] obtain r where
    r: "result (access pages C algo (pages ! n) n ?s) = result ?s @ [r]"
    "page r = pages ! n" "hit r = (pages ! n \<in> set (memory ?s))"
    "faults (access pages C algo (pages ! n) n ?s)
       = faults ?s + (if pages ! n \<in> set (memory ?s) then 0 else 1)"
    by blast
  from sim_access_record [of pages C algo "pages ! n" n ?t] obtain r' where
    r': "rendered_steps (sim_access pages C algo (pages ! n) n ?t) = rendered_steps ?t @ [r']"
    "shown_page r' = pages ! n" "shown_hit r' = (pages ! n \<in> set (sim_memory ?t))"
    "sim_faults (sim_access pages C algo (pages ! n) n ?t)
       = sim_faults ?t + (if pages ! n \<in> set (sim_memory ?t) then 0 else 1)"
    by blast
  from Suc.IH [OF le] agree [OF lt] r r' show ?case by simp
qed

subsection \<open>FIFO: the arrival queue of \<^verbatim>\<open>computeSteps\<close> is the array of \<^verbatim>\<open>simulate\<close>\<close>

lemma wf_lengths:
  assumes "wf C s"
  shows "length (fifoQueue s) = length (memory s)"
proof -
  from assms have "distinct (fifoQueue s)" "distinct (memory s)"
    "set (fifoQueue s) = set (memory s)"
    by (simp_all add: wf_def)
  thus ?thesis by (metis distinct_card)
qed

lemma fifo_queue_is_sim_memory:
  assumes "1 \<le> C"
  shows "fifoQueue (run pages C ''fifo'' n) = sim_memory (sim_run pages C ''fifo'' n)"
proof (induction n)
  case 0
  show ?case by (simp add: init_def sim_init_def)
next
  case (Suc n)
  let ?s = "run pages C ''fifo'' n"
  let ?t = "sim_run pages C ''fifo'' n"
  let ?pg = "pages ! n"
  have rec: "recognized ''fifo''" by (simp add: recognized_def)
  have wf: "wf C ?s" by (rule wf_run [OF rec assms])
  hence sets: "set (memory ?s) = set (sim_memory ?t)" using Suc by (simp add: wf_def)
  from wf_lengths [OF wf] Suc have len: "length (memory ?s) = length (sim_memory ?t)" by simp
  show ?case
  proof (cases "?pg \<in> set (memory ?s)")
    case True
    with sets have "?pg \<in> set (sim_memory ?t)" by simp
    with True Suc show ?thesis by (simp add: access_hit sim_access_hit)
  next
    case notin: False
    with sets have notin': "?pg \<notin> set (sim_memory ?t)" by simp
    show ?thesis
    proof (cases "int (length (memory ?s)) < C")
      case True
      with len have "int (length (sim_memory ?t)) < C" by simp
      with True notin notin' Suc show ?thesis by (simp add: access_free sim_access_free)
    next
      case False
      with len have "\<not> int (length (sim_memory ?t)) < C" by simp
      with False notin notin' Suc show ?thesis by (simp add: access_fifo sim_access_fifo)
    qed
  qed
qed

lemma fifo_residency_agrees:
  assumes "1 \<le> C"
  shows "set (memory (run pages C ''fifo'' n)) = set (sim_memory (sim_run pages C ''fifo'' n))"
proof -
  have "wf C (run pages C ''fifo'' n)"
    by (rule wf_run [OF _ assms]) (simp add: recognized_def)
  with fifo_queue_is_sim_memory [OF assms, of pages n] show ?thesis by (simp add: wf_def)
qed


subsection \<open>LRU: both versions hold the same pages\<close>

lemma lastUse_inj:
  assumes "n \<le> length pages" and "p \<in> set (take n pages)"
    and "lastUse pages n p = lastUse pages n q"
  shows "p = q"
proof -
  from lastUse_nonneg [OF assms(2)] have nn: "0 \<le> lastUse pages n p" .
  with lastUse_largest [OF assms(1), of p] have p: "pages ! nat (lastUse pages n p) = p" by auto
  from nn assms(3) have "0 \<le> lastUse pages n q" by simp
  with lastUse_largest [OF assms(1), of q] have "pages ! nat (lastUse pages n q) = q" by auto
  with p assms(3) show ?thesis by simp
qed

lemma lru_selected_min:
  assumes "1 \<le> C" and "n \<le> length pages" and "memory (run pages C ''lru'' n) \<noteq> []"
  shows "\<exists>v\<in>set (memory (run pages C ''lru'' n)).
           selected pages ''lru'' n (run pages C ''lru'' n) = Some v
         \<and> (\<forall>q\<in>set (memory (run pages C ''lru'' n)). lastUse pages n v \<le> lastUse pages n q)"
proof -
  let ?s = "run pages C ''lru'' n"
  from lru_scan_init [OF assms(3), of "lastUsed ?s"] obtain v ps1 ps2 where
    sc: "lru_scan (lastUsed ?s) (memory ?s) (None, Infinity)
           = (Some v, Num (last_of (lastUsed ?s) v))"
    "memory ?s = ps1 @ v # ps2"
    "\<forall>q\<in>set ps1. last_of (lastUsed ?s) v < last_of (lastUsed ?s) q"
    "\<forall>q\<in>set ps2. last_of (lastUsed ?s) v \<le> last_of (lastUsed ?s) q"
    by blast
  note lu = lru_lastUsed [OF assms(1,2), rule_format]
  from sc(2) have vin: "v \<in> set (memory ?s)" by simp
  have "\<forall>q\<in>set (memory ?s). lastUse pages n v \<le> lastUse pages n q"
  proof
    fix q assume q: "q \<in> set (memory ?s)"
    with sc(2) have "q \<in> set ps1 \<or> q = v \<or> q \<in> set ps2" by auto
    with sc(3,4) have "last_of (lastUsed ?s) v \<le> last_of (lastUsed ?s) q" by force
    with lu [OF q] lu [OF vin] show "lastUse pages n v \<le> lastUse pages n q" by simp
  qed
  moreover from sc(1) have "selected pages ''lru'' n ?s = Some v" by (simp add: selected_def)
  ultimately show ?thesis using vin by blast
qed

lemma sim_lru_choice:
  assumes "ms \<noteq> []"
  shows "\<exists>r<length ms.
           js_indexOf (map (\<lambda>m. Num (key m)) ms) (Math_min (map (\<lambda>m. Num (key m)) ms)) = int r
         \<and> (\<forall>q\<in>set ms. key (ms ! r) \<le> key q)"
proof -
  let ?ix = "map (\<lambda>m. Num (key m)) ms"
  from Math_min_Num [OF assms, of key] obtain b where
    b: "Math_min ?ix = Num b" "\<forall>q\<in>set ms. b \<le> key q" "b \<in> key ` set ms"
    by blast
  from b(3) have "Num b \<in> set ?ix" by auto
  from js_indexOf_nat [OF this] have r: "nat (js_indexOf ?ix (Num b)) < length ms"
    "?ix ! nat (js_indexOf ?ix (Num b)) = Num b"
    "int (nat (js_indexOf ?ix (Num b))) = js_indexOf ?ix (Num b)"
    by simp_all
  from r(1,2) have "key (ms ! nat (js_indexOf ?ix (Num b))) = b" by simp
  with b(1,2) r(1,3) show ?thesis by auto
qed

lemma lru_residency_agrees:
  assumes "1 \<le> C" and "NaN \<notin> set pages"
  shows "n \<le> length pages \<Longrightarrow>
         set (memory (run pages C ''lru'' n)) = set (sim_memory (sim_run pages C ''lru'' n))
       \<and> distinct (sim_memory (sim_run pages C ''lru'' n))"
proof (induction n)
  case 0
  show ?case by (simp add: init_def sim_init_def)
next
  case (Suc n)
  hence lt: "n < length pages" and le: "n \<le> length pages" by simp_all
  let ?s = "run pages C ''lru'' n"
  let ?t = "sim_run pages C ''lru'' n"
  let ?pg = "pages ! n"
  have rec: "recognized ''lru''" by (simp add: recognized_def)
  have wf: "wf C ?s" by (rule wf_run [OF rec assms(1)])
  hence dm: "distinct (memory ?s)" by (simp add: wf_def)
  from Suc.IH [OF le] have sets: "set (memory ?s) = set (sim_memory ?t)"
    and dt: "distinct (sim_memory ?t)"
    by simp_all
  from dm dt sets have len: "length (memory ?s) = length (sim_memory ?t)"
    by (metis distinct_card)
  show ?case
  proof (cases "?pg \<in> set (memory ?s)")
    case True
    with sets have "?pg \<in> set (sim_memory ?t)" by simp
    with True sets dt show ?thesis by (simp add: access_hit sim_access_hit)
  next
    case notin: False
    with sets have notin': "?pg \<notin> set (sim_memory ?t)" by simp
    show ?thesis
    proof (cases "int (length (memory ?s)) < C")
      case True
      with len have "int (length (sim_memory ?t)) < C" by simp
      with True notin notin' sets dt show ?thesis by (simp add: access_free sim_access_free)
    next
      case False
      with len have full': "\<not> int (length (sim_memory ?t)) < C" by simp
      from assms(1) False have ne: "memory ?s \<noteq> []" by auto
      with len have ne': "sim_memory ?t \<noteq> []" by auto
      from lru_selected_min [OF assms(1) le ne] obtain v where
        v: "v \<in> set (memory ?s)" "selected pages ''lru'' n ?s = Some v"
        "\<forall>q\<in>set (memory ?s). lastUse pages n v \<le> lastUse pages n q"
        by blast
      from js_indexOf_in [OF v(1)] have k: "0 \<le> js_indexOf (memory ?s) v"
        "js_indexOf (memory ?s) v < int (length (memory ?s))"
        by simp_all
      have "memory (access pages C ''lru'' ?pg n ?s)
                    = (memory ?s)[nat (js_indexOf (memory ?s) v) := ?pg]"
        using access_full [OF rec notin False, of pages n] js_splice_replace [OF k]
        by (simp add: v(2) indexOf_opt_def)
      with replace_distinct(2) [OF dm v(1) notin]
      have cs: "set (memory (run pages C ''lru'' (Suc n))) = insert ?pg (set (memory ?s) - {v})"
        by simp
      let ?ix = "map (\<lambda>m. Num (lastUse pages n m)) (sim_memory ?t)"
      from sim_lru_choice [OF ne', of "lastUse pages n"] obtain r where
        r: "r < length (sim_memory ?t)" "js_indexOf ?ix (Math_min ?ix) = int r"
        "\<forall>q\<in>set (sim_memory ?t). lastUse pages n (sim_memory ?t ! r) \<le> lastUse pages n q"
        by blast
      from resident_accessed [OF rec assms(1) le] sets set_take_subset [of n pages] assms(2)
      have nonan: "NaN \<notin> set (sim_memory ?t)" by blast
      have sm: "sim_memory (sim_run pages C ''lru'' (Suc n))
                  = js_splice (sim_memory ?t) (int r) 1 [] @ [?pg]"
        by (simp add: sim_access_lru [OF notin' full' nonan refl] r(2))
      from r(1) have uin: "sim_memory ?t ! r \<in> set (sim_memory ?t)" by simp
      with sets v(3) have "lastUse pages n v \<le> lastUse pages n (sim_memory ?t ! r)" by simp
      moreover from r(3) v(1) sets
      have "lastUse pages n (sim_memory ?t ! r) \<le> lastUse pages n v" by simp
      ultimately have eq: "lastUse pages n v = lastUse pages n (sim_memory ?t ! r)" by simp
      from resident_accessed [OF rec assms(1) le] v(1) have "v \<in> set (take n pages)" by blast
      from lastUse_inj [OF le this eq] have uv: "sim_memory ?t ! r = v" by simp
      from remove_push(2,3) [OF dt r(1) notin'] sm uv
      have "distinct (sim_memory (sim_run pages C ''lru'' (Suc n)))"
        and "set (sim_memory (sim_run pages C ''lru'' (Suc n)))
               = insert ?pg (set (sim_memory ?t) - {v})"
        by simp_all
      with cs sets show ?thesis by simp
    qed
  qed
qed


subsection \<open>Optimal: both versions hold the same pages among those still to be accessed\<close>

lemma js_indexOf_inj:
  assumes "p \<in> set f" and "js_indexOf f p = js_indexOf f q"
  shows "p = q"
proof -
  from js_indexOf_in [OF assms(1)] have p: "0 \<le> js_indexOf f p" "f ! nat (js_indexOf f p) = p"
    by simp_all
  from p(1) assms(2) have "js_indexOf f q \<noteq> - 1" by simp
  hence "q \<in> set f" by (simp add: js_indexOf_notin)
  from js_indexOf_in [OF this] have "f ! nat (js_indexOf f q) = q" by simp
  with p(2) assms(2) show ?thesis by simp
qed

lemma optimal_scan_choice:
  assumes "ms \<noteq> []"
  shows "\<exists>v\<in>set ms. snd (optimal_scan f ms (Num (- 1), None)) = Some v
           \<and> ((\<exists>q\<in>set ms. q \<notin> set f) \<longrightarrow> v \<notin> set f)
           \<and> ((\<forall>q\<in>set ms. q \<in> set f) \<longrightarrow> (\<forall>q\<in>set ms. js_indexOf f q \<le> js_indexOf f v))"
proof (cases "\<exists>q\<in>set ms. q \<notin> set f")
  case True
  from optimal_scan_dead_last [OF True] obtain ms1 d ms2 where
    "ms = ms1 @ d # ms2" "d \<notin> set f"
    "optimal_scan f ms (Num (- 1), None) = (Infinity, Some d)"
    by blast
  hence "d \<in> set ms" "snd (optimal_scan f ms (Num (- 1), None)) = Some d" "d \<notin> set f"
    by simp_all
  with True show ?thesis by blast
next
  case False
  hence all: "\<forall>q\<in>set ms. q \<in> set f" by blast
  from optimal_scan_live_init [OF assms all] obtain v where
    "v \<in> set ms" "optimal_scan f ms (Num (- 1), None) = (Num (js_indexOf f v), Some v)"
    "\<forall>q\<in>set ms. js_indexOf f q \<le> js_indexOf f v"
    by blast
  hence "v \<in> set ms" "snd (optimal_scan f ms (Num (- 1), None)) = Some v"
    "\<forall>q\<in>set ms. js_indexOf f q \<le> js_indexOf f v"
    by simp_all
  with all show ?thesis by blast
qed

lemma sim_optimal_choice:
  assumes "ms \<noteq> []"
    and "ix = map (\<lambda>m. if js_indexOf f m = - 1 then Infinity else Num (js_indexOf f m)) ms"
  shows "\<exists>r<length ms. js_indexOf ix (Math_max ix) = int r
           \<and> ((\<exists>q\<in>set ms. q \<notin> set f) \<longrightarrow> ms ! r \<notin> set f)
           \<and> ((\<forall>q\<in>set ms. q \<in> set f)
                \<longrightarrow> (\<forall>q\<in>set ms. js_indexOf f q \<le> js_indexOf f (ms ! r)))"
proof (cases "\<exists>q\<in>set ms. q \<notin> set f")
  case True
  then obtain q where "q \<in> set ms" "js_indexOf f q = - 1" by (auto simp: js_indexOf_notin)
  hence inf: "Infinity \<in> set ix" unfolding assms(2) by force
  hence mx: "Math_max ix = Infinity" by (rule Math_max_Infinity)
  from js_indexOf_nat [OF inf] have r: "nat (js_indexOf ix Infinity) < length ix"
    "ix ! nat (js_indexOf ix Infinity) = Infinity"
    "int (nat (js_indexOf ix Infinity)) = js_indexOf ix Infinity"
    by simp_all
  from r(1) have rl: "nat (js_indexOf ix Infinity) < length ms" by (simp add: assms(2))
  with r(2) have "js_indexOf f (ms ! nat (js_indexOf ix Infinity)) = - 1"
    by (simp add: assms(2) split: if_splits)
  hence "ms ! nat (js_indexOf ix Infinity) \<notin> set f" by (simp add: js_indexOf_notin)
  with True rl r(3) mx show ?thesis by auto
next
  case False
  hence all: "\<forall>q\<in>set ms. q \<in> set f" by blast
  hence "\<forall>q\<in>set ms. js_indexOf f q \<noteq> - 1" by (simp add: js_indexOf_notin)
  hence ix: "ix = map (\<lambda>m. Num (js_indexOf f m)) ms" unfolding assms(2) by simp
  from Math_max_Num [OF assms(1), of "js_indexOf f"] obtain b where
    b: "Math_max ix = Num b" "\<forall>q\<in>set ms. js_indexOf f q \<le> b" "b \<in> js_indexOf f ` set ms"
    unfolding ix by blast
  from b(3) have "Num b \<in> set ix" unfolding ix by auto
  from js_indexOf_nat [OF this] have r: "nat (js_indexOf ix (Num b)) < length ix"
    "ix ! nat (js_indexOf ix (Num b)) = Num b"
    "int (nat (js_indexOf ix (Num b))) = js_indexOf ix (Num b)"
    by simp_all
  from r(1) have rl: "nat (js_indexOf ix (Num b)) < length ms" by (simp add: ix)
  with r(2) have "js_indexOf f (ms ! nat (js_indexOf ix (Num b))) = b" by (simp add: ix)
  with b(1,2) rl r(3) all show ?thesis by auto
qed

lemma optimal_residency_agrees:
  assumes "1 \<le> C" and "NaN \<notin> set pages"
  shows "n \<le> length pages \<Longrightarrow>
         distinct (sim_memory (sim_run pages C ''optimal'' n))
       \<and> length (sim_memory (sim_run pages C ''optimal'' n))
           = length (memory (run pages C ''optimal'' n))
       \<and> set (memory (run pages C ''optimal'' n)) \<inter> set (drop n pages)
           = set (sim_memory (sim_run pages C ''optimal'' n)) \<inter> set (drop n pages)"
proof (induction n)
  case 0
  show ?case by (simp add: init_def sim_init_def)
next
  case (Suc n)
  hence lt: "n < length pages" and le: "n \<le> length pages" by simp_all
  let ?s = "run pages C ''optimal'' n"
  let ?t = "sim_run pages C ''optimal'' n"
  let ?pg = "pages ! n"
  let ?F = "set (drop (Suc n) pages)"
  have rec: "recognized ''optimal''" by (simp add: recognized_def)
  have wf: "wf C ?s" by (rule wf_run [OF rec assms(1)])
  hence dm: "distinct (memory ?s)" by (simp add: wf_def)
  from Suc.IH [OF le] have dt: "distinct (sim_memory ?t)"
    and len: "length (sim_memory ?t) = length (memory ?s)"
    and live: "set (memory ?s) \<inter> set (drop n pages) = set (sim_memory ?t) \<inter> set (drop n pages)"
    by simp_all
  from lt have dn: "set (drop n pages) = insert ?pg ?F"
    by (simp add: Cons_nth_drop_Suc [symmetric])
  hence pgin: "?pg \<in> set (drop n pages)" by simp
  from live dn have liveF: "set (memory ?s) \<inter> ?F = set (sim_memory ?t) \<inter> ?F" by blast
  show ?case
  proof (cases "?pg \<in> set (memory ?s)")
    case True
    with live pgin have "?pg \<in> set (sim_memory ?t)" by blast
    with True dt len liveF show ?thesis by (simp add: access_hit sim_access_hit)
  next
    case notin: False
    with live pgin have notin': "?pg \<notin> set (sim_memory ?t)" by blast
    show ?thesis
    proof (cases "int (length (memory ?s)) < C")
      case True
      with len have "int (length (sim_memory ?t)) < C" by simp
      with True notin notin' dt len liveF show ?thesis
        by (simp add: access_free sim_access_free Int_insert_left)
    next
      case False
      with len have full': "\<not> int (length (sim_memory ?t)) < C" by simp
      from assms(1) False have ne: "memory ?s \<noteq> []" by auto
      with len have ne': "sim_memory ?t \<noteq> []" by auto
      let ?f = "drop (n + 1) pages"
      have ff: "set ?f = ?F" by simp
      from optimal_scan_choice [OF ne, of ?f] obtain v where
        v: "v \<in> set (memory ?s)"
        "snd (optimal_scan ?f (memory ?s) (Num (- 1), None)) = Some v"
        "(\<exists>q\<in>set (memory ?s). q \<notin> ?F) \<longrightarrow> v \<notin> ?F"
        "(\<forall>q\<in>set (memory ?s). q \<in> ?F)
           \<longrightarrow> (\<forall>q\<in>set (memory ?s). js_indexOf ?f q \<le> js_indexOf ?f v)"
        unfolding ff by blast
      from v(2) have sel: "selected pages ''optimal'' n ?s = Some v" by (simp add: selected_def)
      from js_indexOf_in [OF v(1)] have k: "0 \<le> js_indexOf (memory ?s) v"
        "js_indexOf (memory ?s) v < int (length (memory ?s))"
        by simp_all
      have "memory (access pages C ''optimal'' ?pg n ?s)
                    = (memory ?s)[nat (js_indexOf (memory ?s) v) := ?pg]"
        using access_full [OF rec notin False, of pages n] js_splice_replace [OF k]
        by (simp add: sel indexOf_opt_def)
      with replace_distinct(2) [OF dm v(1) notin]
      have cs: "set (memory (run pages C ''optimal'' (Suc n)))
                  = insert ?pg (set (memory ?s) - {v})"
        and csl: "length (memory (run pages C ''optimal'' (Suc n))) = length (memory ?s)"
        by simp_all
      let ?ix = "map (\<lambda>m. if js_indexOf ?f m = - 1 then Infinity else Num (js_indexOf ?f m))
                     (sim_memory ?t)"
      from sim_optimal_choice [OF ne' refl, of ?f] obtain r where
        r: "r < length (sim_memory ?t)" "js_indexOf ?ix (Math_max ?ix) = int r"
        "(\<exists>q\<in>set (sim_memory ?t). q \<notin> ?F) \<longrightarrow> sim_memory ?t ! r \<notin> ?F"
        "(\<forall>q\<in>set (sim_memory ?t). q \<in> ?F)
           \<longrightarrow> (\<forall>q\<in>set (sim_memory ?t). js_indexOf ?f q \<le> js_indexOf ?f (sim_memory ?t ! r))"
        unfolding ff by blast
      let ?u = "sim_memory ?t ! r"
      from sim_resident_accessed [OF le, of C "''optimal''"] set_take_subset [of n pages] assms(2)
      have nonan: "NaN \<notin> set (sim_memory ?t)" by blast
      have sm0: "sim_memory (sim_run pages C ''optimal'' (Suc n))
                  = js_splice (sim_memory ?t) (js_indexOf ?ix (Math_max ?ix)) 1 [] @ [?pg]"
        unfolding sim_run.simps by (subst sim_access_optimal [OF notin' full' nonan refl]) simp
      have sm: "sim_memory (sim_run pages C ''optimal'' (Suc n))
                  = js_splice (sim_memory ?t) (int r) 1 [] @ [?pg]"
        unfolding sm0 r(2) ..
      from remove_push(2,3,4) [OF dt r(1) notin'] sm
      have dt': "distinct (sim_memory (sim_run pages C ''optimal'' (Suc n)))"
        and ss: "set (sim_memory (sim_run pages C ''optimal'' (Suc n)))
               = insert ?pg (set (sim_memory ?t) - {?u})"
        and sl: "length (sim_memory (sim_run pages C ''optimal'' (Suc n)))
               = length (sim_memory ?t)"
        by simp_all
      from r(1) have uin: "?u \<in> set (sim_memory ?t)" by simp
      from dm dt len have card: "card (set (memory ?s)) = card (set (sim_memory ?t))"
        by (simp add: distinct_card)
      have "(set (memory ?s) - {v}) \<inter> ?F = (set (sim_memory ?t) - {?u}) \<inter> ?F"
      proof (cases "\<forall>q\<in>set (memory ?s). q \<in> ?F")
        case True
        hence "set (memory ?s) \<subseteq> set (sim_memory ?t)" using liveF by blast
        with card have same: "set (memory ?s) = set (sim_memory ?t)"
          by (simp add: card_subset_eq)
        with True v(4) r(4) uin v(1)
        have "js_indexOf ?f ?u \<le> js_indexOf ?f v" "js_indexOf ?f v \<le> js_indexOf ?f ?u"
          by simp_all
        hence eq: "js_indexOf ?f v = js_indexOf ?f ?u" by simp
        from True v(1) have "v \<in> set ?f" by simp
        from js_indexOf_inj [OF this eq] same show ?thesis by simp
      next
        case False
        with v(3) have vF: "v \<notin> ?F" by blast
        have "\<exists>q\<in>set (sim_memory ?t). q \<notin> ?F"
        proof (rule ccontr)
          assume "\<not> (\<exists>q\<in>set (sim_memory ?t). q \<notin> ?F)"
          hence "set (sim_memory ?t) \<subseteq> set (memory ?s)" using liveF by blast
          with card have "set (sim_memory ?t) = set (memory ?s)"
            by (simp add: card_subset_eq)
          with \<open>\<not> (\<exists>q\<in>set (sim_memory ?t). q \<notin> ?F)\<close> False show False by simp
        qed
        with r(3) have uF: "?u \<notin> ?F" by blast
        from vF uF liveF show ?thesis by blast
      qed
      hence "insert ?pg (set (memory ?s) - {v}) \<inter> ?F
               = insert ?pg (set (sim_memory ?t) - {?u}) \<inter> ?F"
        by blast
      with dt' cs ss sl csl len show ?thesis by simp
    qed
  qed
qed

lemma optimal_hit_agrees:
  assumes "1 \<le> C" and "NaN \<notin> set pages" and "n < length pages"
  shows "(pages ! n \<in> set (memory (run pages C ''optimal'' n)))
           = (pages ! n \<in> set (sim_memory (sim_run pages C ''optimal'' n)))"
proof -
  from assms(3) have le: "n \<le> length pages" by simp
  from assms(3) have "pages ! n \<in> set (drop n pages)"
    by (simp add: Cons_nth_drop_Suc [symmetric])
  with optimal_residency_agrees [OF assms(1,2) le] show ?thesis by blast
qed


section \<open>Without \<^verbatim>\<open>NaN\<close>, strict and plain \<^verbatim>\<open>indexOf\<close> give the same \<^verbatim>\<open>computeSteps\<close>\<close>

lemma strict_indexOf_opt_eq:
  "v \<noteq> Some NaN \<Longrightarrow> strict_indexOf_opt xs v = indexOf_opt xs v"
  by (cases v) (simp_all add: strict_indexOf_opt_def indexOf_opt_def strict_indexOf_eq)

lemma optimal_scan_strict_eq:
  "NaN \<notin> set ms \<Longrightarrow> optimal_scan_strict f ms acc = optimal_scan f ms acc"
proof (induction ms arbitrary: acc)
  case Nil
  show ?case by simp
next
  case (Cons m ms)
  obtain far v where acc: "acc = (far, v)" by (cases acc)
  from Cons.prems have m: "m \<noteq> NaN" and ms: "NaN \<notin> set ms" by auto
  show ?case unfolding acc by (simp add: Let_def strict_indexOf_eq [OF m] Cons.IH [OF ms])
qed

lemma lru_scan_fst:
  "fst (lru_scan lu ps acc) = fst acc \<or> fst (lru_scan lu ps acc) \<in> Some ` set ps"
proof (induction ps arbitrary: acc)
  case Nil
  show ?case by simp
next
  case (Cons p ps)
  obtain a x where acc: "acc = (a, x)" by (cases acc)
  from Cons [of "(Some p, Num (last_of lu p))"] Cons [of "(a, x)"]
  show ?case unfolding acc by (auto simp: Let_def)
qed

lemma optimal_scan_snd:
  "snd (optimal_scan f ms acc) = snd acc \<or> snd (optimal_scan f ms acc) \<in> Some ` set ms"
proof (induction ms arbitrary: acc)
  case Nil
  show ?case by simp
next
  case (Cons m ms)
  obtain far v where acc: "acc = (far, v)" by (cases acc)
  from Cons [of "(Infinity, Some m)"] Cons [of "(Num (js_indexOf f m), Some m)"] Cons [of "(far, v)"]
  show ?case unfolding acc by (auto simp: Let_def)
qed

lemma set_js_splice: "set (js_splice xs k d items) \<subseteq> set xs \<union> set items"
  by (auto simp: js_splice_def Let_def dest: in_set_takeD in_set_dropD)

lemma access_strict_eq:
  assumes "NaN \<notin> set (memory s)" and "NaN \<notin> set (fifoQueue s)"
  shows "access_strict pages C algo pg i s = access pages C algo pg i s"
proof -
  have h1: "fst (js_shift (fifoQueue s)) \<noteq> Some NaN"
    using assms(2) by (cases "fifoQueue s") (auto simp: js_shift_def)
  have h2: "fst (lru_scan (lastUsed s) (memory s) (None, Infinity)) \<noteq> Some NaN"
    using lru_scan_fst [of "lastUsed s" "memory s" "(None, Infinity)"] assms(1) by auto
  have h3: "optimal_scan_strict (drop (Suc i) pages) (memory s) (Num (- 1), None)
              = optimal_scan (drop (Suc i) pages) (memory s) (Num (- 1), None)"
    by (rule optimal_scan_strict_eq [OF assms(1)])
  have h4: "snd (optimal_scan (drop (Suc i) pages) (memory s) (Num (- 1), None)) \<noteq> Some NaN"
    using optimal_scan_snd [of "drop (Suc i) pages" "memory s" "(Num (- 1), None)"] assms(1)
    by auto
  show ?thesis
    by (simp add: access_strict_def access_def Let_def split_beta
        strict_indexOf_opt_eq h1 h2 h3 h4)
qed

lemma access_keeps_pages:
  "set (memory (access pages C algo pg i s)) \<subseteq> insert pg (set (memory s))
   \<and> set (fifoQueue (access pages C algo pg i s)) \<subseteq> insert pg (set (fifoQueue s))"
proof (cases "pg \<in> set (memory s)")
  case True
  thus ?thesis by (auto simp: access_hit)
next
  case notin: False
  show ?thesis
  proof (cases "int (length (memory s)) < C")
    case True
    with notin show ?thesis by (auto simp: access_free)
  next
    case False
    show ?thesis
    proof (cases "recognized algo")
      case True
      from access_full [OF True notin False, of pages i]
        set_js_splice [of "memory s" _ 1 "[pg]"] set_js_splice [of "fifoQueue s" _ 1 "[pg]"]
        set_js_shift [of "fifoQueue s"]
      show ?thesis by (auto split: if_splits)
    next
      case unk: False
      with notin False show ?thesis by (auto simp: access_other)
    qed
  qed
qed

lemma forEach_agree:
  assumes "I s"
    and "\<And>x i s. x \<in> set xs \<Longrightarrow> I s \<Longrightarrow> f x i s = g x i s \<and> I (g x i s)"
  shows "forEach f xs i s = forEach g xs i s"
  using assms
proof (induction xs arbitrary: i s)
  case Nil
  show ?case by simp
next
  case (Cons x xs)
  from Cons.prems(2) [of x s i] Cons.prems(1)
  have eq: "f x i s = g x i s" and inv: "I (g x i s)" by simp_all
  have "forEach f xs (Suc i) (g x i s) = forEach g xs (Suc i) (g x i s)"
    by (rule Cons.IH [OF inv]) (simp add: Cons.prems(2))
  with eq show ?case by simp
qed

lemma computeSteps_strict_eq:
  assumes "NaN \<notin> set pages"
  shows "computeSteps_strict pages C algo = computeSteps pages C algo"
proof -
  let ?I = "\<lambda>s. NaN \<notin> set (memory s) \<and> NaN \<notin> set (fifoQueue s)"
  have start: "?I (init :: 'a page state)" by (simp add: init_def)
  have step: "\<And>x i s. x \<in> set pages \<Longrightarrow> ?I s \<Longrightarrow>
                access_strict pages C algo x i s = access pages C algo x i s
                \<and> ?I (access pages C algo x i s)"
  proof -
    fix x :: "'a page" and i and s :: "'a page state"
    assume x: "x \<in> set pages" and inv: "?I s"
    with assms have xn: "x \<noteq> NaN" by auto
    from inv have eq: "access_strict pages C algo x i s = access pages C algo x i s"
      by (simp add: access_strict_eq)
    from access_keeps_pages [of pages C algo x i s] inv xn
    have "?I (access pages C algo x i s)" by auto
    with eq show "access_strict pages C algo x i s = access pages C algo x i s
                \<and> ?I (access pages C algo x i s)" by simp
  qed
  have "forEach (access_strict pages C algo) pages 0 init
          = forEach (access pages C algo) pages 0 init"
    by (rule forEach_agree [where I = ?I, OF start step])
  thus ?thesis by (simp add: computeSteps_strict_def computeSteps_def)
qed


section \<open>One step record and one counter per access\<close>

text \<open>
  C1: for every pages sequence, every capacity \<open>C \<ge> 1\<close> and every algorithm among fifo, lru
  and optimal, computeSteps returns as many step records as there are accesses, and the
  two totals add up to that number. Each access produces exactly one record (the record at
  position \<open>i\<close> is the one of access \<open>i\<close>) and increments exactly one counter: the faults are
  the records that are not hits, the hits are the records that are.
\<close>

theorem computeSteps_one_record_per_access:
  assumes "1 \<le> C" and "recognized algo"
  shows "length (steps (computeSteps pages C algo)) = length pages
    \<and> totals_faults (computeSteps pages C algo) + totals_hits (computeSteps pages C algo)
        = length pages
    \<and> totals_faults (computeSteps pages C algo)
        = length (filter (\<lambda>r. \<not> hit r) (steps (computeSteps pages C algo)))
    \<and> totals_hits (computeSteps pages C algo)
        = length (filter hit (steps (computeSteps pages C algo)))
    \<and> (\<forall>i<length pages. index (steps (computeSteps pages C algo) ! i) = i
                        \<and> page (steps (computeSteps pages C algo) ! i) = pages ! i)"
proof -
  have a: "length (steps (computeSteps pages C algo)) = length pages"
    by (simp add: computeSteps_run run_result_length [OF assms(2)])
  have b: "totals_faults (computeSteps pages C algo) + totals_hits (computeSteps pages C algo)
        = length pages"
    by (simp add: computeSteps_run run_counters)
  from run_counts_filter [OF assms(2), of pages C "length pages"]
  have c: "totals_faults (computeSteps pages C algo)
        = length (filter (\<lambda>r. \<not> hit r) (steps (computeSteps pages C algo)))"
    and d: "totals_hits (computeSteps pages C algo)
        = length (filter hit (steps (computeSteps pages C algo)))"
    by (simp_all add: computeSteps_run)
  from step_index_page(1,2) [OF assms(2)]
  have e: "\<forall>i<length pages. index (steps (computeSteps pages C algo) ! i) = i
                        \<and> page (steps (computeSteps pages C algo) ! i) = pages ! i"
    by blast
  from a b c d e show ?thesis by blast
qed

theorem computeSteps_one_record_per_access_witness:
  "length (steps (computeSteps [7, 0, 1, 2, 0, 3, 0, 4 :: int] 3 ''lru'')) = 8
   \<and> totals_faults (computeSteps [7, 0, 1, 2, 0, 3, 0, 4 :: int] 3 ''lru'')
       + totals_hits (computeSteps [7, 0, 1, 2, 0, 3, 0, 4 :: int] 3 ''lru'') = 8
   \<and> index (steps (computeSteps [7, 0, 1, 2, 0, 3, 0, 4 :: int] 3 ''lru'') ! 5) = 5
   \<and> page (steps (computeSteps [7, 0, 1, 2, 0, 3, 0, 4 :: int] 3 ''lru'') ! 5) = 3"
proof -
  have h1: "(1::int) \<le> 3" by simp
  have h2: "recognized ''lru''" by (simp add: recognized_def)
  have h3: "(5::nat) < length [7, 0, 1, 2, 0, 3, 0, 4 :: int]" by simp
  from computeSteps_one_record_per_access [OF h1 h2, of "[7, 0, 1, 2, 0, 3, 0, 4 :: int]"] h3
  show ?thesis by simp
qed

section \<open>The hit test\<close>

text \<open>
  C5: at every position \<open>i\<close>, the step record has \<open>hit = true\<close> if and only if the accessed
  page is in the frame snapshot of step \<open>i - 1\<close> (in the empty frame set when \<open>i = 0\<close>): the
  test looks at the frames as they are before access \<open>i\<close> changes them.
\<close>

theorem hit_iff_resident_before:
  assumes "recognized algo" and "i < length pages"
  shows "hit (steps (computeSteps pages C algo) ! i)
           = (pages ! i \<in> set (before (steps (computeSteps pages C algo)) i))
       \<and> page (steps (computeSteps pages C algo) ! i) = pages ! i"
  using step_index_page(2,3) [OF assms] by simp

theorem hit_iff_resident_before_witness:
  "hit (steps (computeSteps [7, 0, 1, 2, 0, 3, 0, 4 :: int] 3 ''fifo'') ! 4)
     = (([7, 0, 1, 2, 0, 3, 0, 4 :: int] ! 4)
          \<in> set (before (steps (computeSteps [7, 0, 1, 2, 0, 3, 0, 4 :: int] 3 ''fifo'')) 4))
   \<and> hit (steps (computeSteps [7, 0, 1, 2, 0, 3, 0, 4 :: int] 3 ''fifo'') ! 4)
   \<and> before (steps (computeSteps [7, 0, 1, 2, 0, 3, 0, 4 :: int] 3 ''fifo'')) 4 = [2, 0, 1]"
proof -
  have h1: "recognized ''fifo''" by (simp add: recognized_def)
  have h2: "(4::nat) < length [7, 0, 1, 2, 0, 3, 0, 4 :: int]" by simp
  have ev: "hit (steps (computeSteps [7, 0, 1, 2, 0, 3, 0, 4 :: int] 3 ''fifo'') ! 4)
    \<and> before (steps (computeSteps [7, 0, 1, 2, 0, 3, 0, 4 :: int] 3 ''fifo'')) 4 = [2, 0, 1]"
    by code_simp
  from hit_iff_resident_before [OF h1 h2, of 3] ev show ?thesis by blast
qed


section \<open>The replaced slot and the frame contents\<close>

text \<open>
  C7, as stated: the evicted-slot field is "none" both on a hit and when a fault fills a
  free slot. In the code \<^verbatim>\<open>replacedIndex\<close> is \<open>-1\<close> on a hit only; a fault that fills a free
  slot records the index of that slot, which the display uses as the target of the drop.
\<close>

theorem free_slot_replacedIndex_counterexample:
  "info (steps (computeSteps [7 :: int] 3 ''fifo'') ! 0) = PlacedIntoFreeSlot
   \<and> \<not> hit (steps (computeSteps [7 :: int] 3 ''fifo'') ! 0)
   \<and> before (steps (computeSteps [7 :: int] 3 ''fifo'')) 0 = []
   \<and> replacedIndex (steps (computeSteps [7 :: int] 3 ''fifo'') ! 0) = 0
   \<and> replacedIndex (steps (computeSteps [7 :: int] 3 ''fifo'') ! 0) \<noteq> - 1"
  by code_simp

text \<open>
  C7, amended: for every step record produced by computeSteps (capacity at least 1, a
  recognized algorithm), \<^verbatim>\<open>replacedIndex\<close> is \<open>-1\<close> exactly when the access is a hit; when a
  fault fills a free slot it is the index of the newly filled slot, that is the number of pages
  resident before, and no page is evicted; when a fault finds all frames full it is the index
  of the slot whose resident page is evicted, the page that \<^verbatim>\<open>info\<close> names.
\<close>

theorem replacedIndex_meaning:
  assumes "1 \<le> C" and "recognized algo" and "i < length pages"
  shows "(hit (steps (computeSteps pages C algo) ! i)
            = (replacedIndex (steps (computeSteps pages C algo) ! i) = - 1))
    \<and> (\<not> hit (steps (computeSteps pages C algo) ! i)
         \<and> int (length (before (steps (computeSteps pages C algo)) i)) < C
       \<longrightarrow> replacedIndex (steps (computeSteps pages C algo) ! i)
             = int (length (before (steps (computeSteps pages C algo)) i))
         \<and> info (steps (computeSteps pages C algo) ! i) = PlacedIntoFreeSlot
         \<and> memory_clone (steps (computeSteps pages C algo) ! i)
             = before (steps (computeSteps pages C algo)) i @ [pages ! i])
    \<and> (\<not> hit (steps (computeSteps pages C algo) ! i)
         \<and> \<not> int (length (before (steps (computeSteps pages C algo)) i)) < C
       \<longrightarrow> int (length (before (steps (computeSteps pages C algo)) i)) = C
         \<and> 0 \<le> replacedIndex (steps (computeSteps pages C algo) ! i)
         \<and> replacedIndex (steps (computeSteps pages C algo) ! i) < C
         \<and> info (steps (computeSteps pages C algo) ! i)
             = replaced_info algo
                 (Some (before (steps (computeSteps pages C algo)) i
                          ! nat (replacedIndex (steps (computeSteps pages C algo) ! i))))
         \<and> before (steps (computeSteps pages C algo)) i
              ! nat (replacedIndex (steps (computeSteps pages C algo) ! i))
             \<notin> set (memory_clone (steps (computeSteps pages C algo) ! i)))"
proof -
  let ?prev = "before (steps (computeSteps pages C algo)) i"
  let ?st = "steps (computeSteps pages C algo) ! i"
  from step_cases [OF assms(2,1,3)]
  have le: "int (length ?prev) \<le> C" and d: "distinct ?prev"
    and alt: "(pages ! i \<in> set ?prev
         \<and> ?st = \<lparr> index = i, page = pages ! i, memory_clone = ?prev,
                   hit = True, replacedIndex = - 1, info = Hit \<rparr>)
       \<or> (pages ! i \<notin> set ?prev \<and> int (length ?prev) < C
         \<and> ?st = \<lparr> index = i, page = pages ! i, memory_clone = ?prev @ [pages ! i],
                   hit = False, replacedIndex = int (length ?prev),
                   info = PlacedIntoFreeSlot \<rparr>)
       \<or> (pages ! i \<notin> set ?prev \<and> int (length ?prev) = C
         \<and> (\<exists>v k. selected pages algo i (run pages C algo i) = Some v
               \<and> k < length ?prev \<and> ?prev ! k = v
               \<and> ?st = \<lparr> index = i, page = pages ! i, memory_clone = ?prev[k := pages ! i],
                         hit = False, replacedIndex = int k,
                         info = replaced_info algo (Some v) \<rparr>))"
    by blast+
  from alt show ?thesis
  proof (elim disjE conjE exE)
    assume "?st = \<lparr> index = i, page = pages ! i, memory_clone = ?prev,
                   hit = True, replacedIndex = - 1, info = Hit \<rparr>"
    thus ?thesis by simp
  next
    assume "int (length ?prev) < C"
      and "?st = \<lparr> index = i, page = pages ! i, memory_clone = ?prev @ [pages ! i],
                   hit = False, replacedIndex = int (length ?prev),
                   info = PlacedIntoFreeSlot \<rparr>"
    thus ?thesis by simp
  next
    fix v k
    assume full: "int (length ?prev) = C" and k: "k < length ?prev" and v: "?prev ! k = v"
      and notin: "pages ! i \<notin> set ?prev"
      and st: "?st = \<lparr> index = i, page = pages ! i, memory_clone = ?prev[k := pages ! i],
                         hit = False, replacedIndex = int k,
                         info = replaced_info algo (Some v) \<rparr>"
    from d k have "js_indexOf ?prev (?prev ! k) = int k" by (rule js_indexOf_nth)
    hence kk: "nat (js_indexOf ?prev v) = k" by (simp add: v)
    from k v have vin: "v \<in> set ?prev" by auto
    from replace_distinct(2) [OF d vin notin] kk notin vin
    have "v \<notin> set (?prev[k := pages ! i])" by auto
    with full k v st show ?thesis by simp
  qed
qed

theorem replacedIndex_meaning_witness:
  "replacedIndex (steps (computeSteps [7, 0, 1, 2, 0, 3, 0, 4 :: int] 3 ''lru'') ! 1) = 1
   \<and> info (steps (computeSteps [7, 0, 1, 2, 0, 3, 0, 4 :: int] 3 ''lru'') ! 1)
       = PlacedIntoFreeSlot
   \<and> memory_clone (steps (computeSteps [7, 0, 1, 2, 0, 3, 0, 4 :: int] 3 ''lru'') ! 1) = [7, 0]
   \<and> replacedIndex (steps (computeSteps [7, 0, 1, 2, 0, 3, 0, 4 :: int] 3 ''lru'') ! 3) = 0
   \<and> info (steps (computeSteps [7, 0, 1, 2, 0, 3, 0, 4 :: int] 3 ''lru'') ! 3)
       = replaced_info ''lru'' (Some ([7, 0, 1] ! nat 0))
   \<and> info (steps (computeSteps [7, 0, 1, 2, 0, 3, 0, 4 :: int] 3 ''lru'') ! 3)
       = LRUReplaced (Some 7)
   \<and> 7 \<notin> set (memory_clone (steps (computeSteps [7, 0, 1, 2, 0, 3, 0, 4 :: int] 3 ''lru'') ! 3))
   \<and> hit (steps (computeSteps [7, 0, 1, 2, 0, 3, 0, 4 :: int] 3 ''lru'') ! 4)
   \<and> replacedIndex (steps (computeSteps [7, 0, 1, 2, 0, 3, 0, 4 :: int] 3 ''lru'') ! 4) = - 1"
proof -
  have h1: "(1::int) \<le> 3" by simp
  have h2: "recognized ''lru''" by (simp add: recognized_def)
  have l: "(1::nat) < length [7, 0, 1, 2, 0, 3, 0, 4 :: int]"
    "(3::nat) < length [7, 0, 1, 2, 0, 3, 0, 4 :: int]"
    "(4::nat) < length [7, 0, 1, 2, 0, 3, 0, 4 :: int]"
    by simp_all
  have ev: "\<not> hit (steps (computeSteps [7, 0, 1, 2, 0, 3, 0, 4 :: int] 3 ''lru'') ! 1)
    \<and> before (steps (computeSteps [7, 0, 1, 2, 0, 3, 0, 4 :: int] 3 ''lru'')) 1 = [7]
    \<and> \<not> hit (steps (computeSteps [7, 0, 1, 2, 0, 3, 0, 4 :: int] 3 ''lru'') ! 3)
    \<and> before (steps (computeSteps [7, 0, 1, 2, 0, 3, 0, 4 :: int] 3 ''lru'')) 3 = [7, 0, 1]
    \<and> replacedIndex (steps (computeSteps [7, 0, 1, 2, 0, 3, 0, 4 :: int] 3 ''lru'') ! 3) = 0
    \<and> hit (steps (computeSteps [7, 0, 1, 2, 0, 3, 0, 4 :: int] 3 ''lru'') ! 4)"
    by code_simp
  from replacedIndex_meaning [OF h1 h2 l(1)] replacedIndex_meaning [OF h1 h2 l(2)]
       replacedIndex_meaning [OF h1 h2 l(3)] ev
  show ?thesis by (simp add: replaced_info_def)
qed

text \<open>
  C8: for every access under a recognized algorithm (capacity at least 1): on a hit the
  snapshot of the step equals the snapshot of the previous step; on a fault with all frames
  full the new snapshot has the same length \<open>C\<close>, differs from the previous one only at the
  recorded replaced slot, and holds the accessed page there.
\<close>

theorem frame_effect:
  assumes "1 \<le> C" and "recognized algo" and "i < length pages"
  shows "(hit (steps (computeSteps pages C algo) ! i)
       \<longrightarrow> memory_clone (steps (computeSteps pages C algo) ! i)
             = before (steps (computeSteps pages C algo)) i)
    \<and> (\<not> hit (steps (computeSteps pages C algo) ! i)
         \<and> int (length (before (steps (computeSteps pages C algo)) i)) = C
       \<longrightarrow> int (length (memory_clone (steps (computeSteps pages C algo) ! i))) = C
         \<and> 0 \<le> replacedIndex (steps (computeSteps pages C algo) ! i)
         \<and> replacedIndex (steps (computeSteps pages C algo) ! i) < C
         \<and> memory_clone (steps (computeSteps pages C algo) ! i)
             = (before (steps (computeSteps pages C algo)) i)
                 [nat (replacedIndex (steps (computeSteps pages C algo) ! i)) := pages ! i]
         \<and> memory_clone (steps (computeSteps pages C algo) ! i)
              ! nat (replacedIndex (steps (computeSteps pages C algo) ! i)) = pages ! i
         \<and> before (steps (computeSteps pages C algo)) i
              ! nat (replacedIndex (steps (computeSteps pages C algo) ! i)) \<noteq> pages ! i
         \<and> (\<forall>j. j < nat C \<and> j \<noteq> nat (replacedIndex (steps (computeSteps pages C algo) ! i))
               \<longrightarrow> memory_clone (steps (computeSteps pages C algo) ! i) ! j
                     = before (steps (computeSteps pages C algo)) i ! j))"
proof -
  let ?prev = "before (steps (computeSteps pages C algo)) i"
  let ?st = "steps (computeSteps pages C algo) ! i"
  from step_cases [OF assms(2,1,3)]
  have alt: "(pages ! i \<in> set ?prev
         \<and> ?st = \<lparr> index = i, page = pages ! i, memory_clone = ?prev,
                   hit = True, replacedIndex = - 1, info = Hit \<rparr>)
       \<or> (pages ! i \<notin> set ?prev \<and> int (length ?prev) < C
         \<and> ?st = \<lparr> index = i, page = pages ! i, memory_clone = ?prev @ [pages ! i],
                   hit = False, replacedIndex = int (length ?prev),
                   info = PlacedIntoFreeSlot \<rparr>)
       \<or> (pages ! i \<notin> set ?prev \<and> int (length ?prev) = C
         \<and> (\<exists>v k. selected pages algo i (run pages C algo i) = Some v
               \<and> k < length ?prev \<and> ?prev ! k = v
               \<and> ?st = \<lparr> index = i, page = pages ! i, memory_clone = ?prev[k := pages ! i],
                         hit = False, replacedIndex = int k,
                         info = replaced_info algo (Some v) \<rparr>))"
    by blast
  from alt show ?thesis
  proof (elim disjE conjE exE)
    assume "?st = \<lparr> index = i, page = pages ! i, memory_clone = ?prev,
                   hit = True, replacedIndex = - 1, info = Hit \<rparr>"
    thus ?thesis by simp
  next
    assume "int (length ?prev) < C"
      and "?st = \<lparr> index = i, page = pages ! i, memory_clone = ?prev @ [pages ! i],
                   hit = False, replacedIndex = int (length ?prev),
                   info = PlacedIntoFreeSlot \<rparr>"
    thus ?thesis by simp
  next
    fix v k
    assume full: "int (length ?prev) = C" and k: "k < length ?prev" and v: "?prev ! k = v"
      and notin: "pages ! i \<notin> set ?prev"
      and st: "?st = \<lparr> index = i, page = pages ! i, memory_clone = ?prev[k := pages ! i],
                         hit = False, replacedIndex = int k,
                         info = replaced_info algo (Some v) \<rparr>"
    from k notin have ne: "?prev ! k \<noteq> pages ! i" by (metis nth_mem)
    from full have nC: "nat C = length ?prev" by simp
    from full k have kC: "int k < C" by simp
    from st full k ne nC kC show ?thesis by simp
  qed
qed

theorem frame_effect_witness:
  "\<not> hit (steps (computeSteps [7, 0, 1, 2, 0, 3, 0, 4 :: int] 3 ''optimal'') ! 3)
   \<and> before (steps (computeSteps [7, 0, 1, 2, 0, 3, 0, 4 :: int] 3 ''optimal'')) 3 = [7, 0, 1]
   \<and> replacedIndex (steps (computeSteps [7, 0, 1, 2, 0, 3, 0, 4 :: int] 3 ''optimal'') ! 3) = 2
   \<and> memory_clone (steps (computeSteps [7, 0, 1, 2, 0, 3, 0, 4 :: int] 3 ''optimal'') ! 3)
       = [7, 0, 1][nat 2 := [7, 0, 1, 2, 0, 3, 0, 4 :: int] ! 3]
   \<and> memory_clone (steps (computeSteps [7, 0, 1, 2, 0, 3, 0, 4 :: int] 3 ''optimal'') ! 4)
       = before (steps (computeSteps [7, 0, 1, 2, 0, 3, 0, 4 :: int] 3 ''optimal'')) 4"
proof -
  have h1: "(1::int) \<le> 3" by simp
  have h2: "recognized ''optimal''" by (simp add: recognized_def)
  have h3: "(3::nat) < length [7, 0, 1, 2, 0, 3, 0, 4 :: int]" by simp
  have h4: "(4::nat) < length [7, 0, 1, 2, 0, 3, 0, 4 :: int]" by simp
  have ev: "\<not> hit (steps (computeSteps [7, 0, 1, 2, 0, 3, 0, 4 :: int] 3 ''optimal'') ! 3)
    \<and> before (steps (computeSteps [7, 0, 1, 2, 0, 3, 0, 4 :: int] 3 ''optimal'')) 3 = [7, 0, 1]
    \<and> replacedIndex (steps (computeSteps [7, 0, 1, 2, 0, 3, 0, 4 :: int] 3 ''optimal'') ! 3) = 2
    \<and> hit (steps (computeSteps [7, 0, 1, 2, 0, 3, 0, 4 :: int] 3 ''optimal'') ! 4)"
    by code_simp
  from frame_effect [OF h1 h2 h3] frame_effect [OF h1 h2 h4] ev show ?thesis by simp
qed


section \<open>Which page is evicted\<close>

text \<open>
  C3: under lru, a fault with all frames full evicts the resident page with the smallest
  \<open>lastUse\<close>, the largest index below \<open>i\<close> at which the page was accessed (\<open>-1\<close> if there is
  none, which does not happen for a resident page). Among equal values the first page in the
  order of the frames would be taken: every page in an earlier slot has a strictly larger
  \<open>lastUse\<close> than the evicted one.
\<close>

theorem lru_evicts_least_recently_used:
  fixes pages :: "'a list"
  defines "st \<equiv> \<lambda>pages C i. steps (computeSteps pages C ''lru'') ! i"
  defines "prev \<equiv> \<lambda>pages C i. before (steps (computeSteps pages C ''lru'')) i"
  assumes "1 \<le> C" and "i < length pages"
    and "\<not> hit (st pages C i)" and "int (length (prev pages C i)) = C"
  shows "0 \<le> replacedIndex (st pages C i) \<and> replacedIndex (st pages C i) < C
    \<and> info (st pages C i)
        = LRUReplaced (Some (prev pages C i ! nat (replacedIndex (st pages C i))))
    \<and> 0 \<le> lastUse pages i (prev pages C i ! nat (replacedIndex (st pages C i)))
    \<and> (\<forall>q\<in>set (prev pages C i).
          lastUse pages i (prev pages C i ! nat (replacedIndex (st pages C i)))
            \<le> lastUse pages i q)
    \<and> (\<forall>j<nat (replacedIndex (st pages C i)).
          lastUse pages i (prev pages C i ! nat (replacedIndex (st pages C i)))
            < lastUse pages i (prev pages C i ! j))
    \<and> memory_clone (st pages C i)
        = (prev pages C i)[nat (replacedIndex (st pages C i)) := pages ! i]
    \<and> prev pages C i ! nat (replacedIndex (st pages C i)) \<notin> set (memory_clone (st pages C i))
    \<and> pages ! i \<in> set (memory_clone (st pages C i))"
proof -
  let ?s = "run pages C ''lru'' i"
  have rec: "recognized ''lru''" by (simp add: recognized_def)
  note view = full_fault_view [OF rec assms(3,4) assms(5,6) [unfolded st_def prev_def]]
  note frames = full_fault_frames [OF rec assms(3,4) assms(5,6) [unfolded st_def prev_def]]
  from view(1) obtain v k where vk: "selected pages ''lru'' i ?s = Some v"
    "k < length (memory ?s)" "memory ?s ! k = v"
    "replacedIndex (st pages C i) = int k"
    "info (st pages C i) = replaced_info ''lru'' (Some v)"
    unfolding st_def by blast
  have bef: "prev pages C i = memory ?s" unfolding prev_def by (rule view(2))
  from lru_scan_init [OF view(4), of "lastUsed ?s"] obtain v' ps1 ps2 where
    sc: "lru_scan (lastUsed ?s) (memory ?s) (None, Infinity)
           = (Some v', Num (last_of (lastUsed ?s) v'))"
    "memory ?s = ps1 @ v' # ps2"
    "\<forall>q\<in>set ps1. last_of (lastUsed ?s) v' < last_of (lastUsed ?s) q"
    "\<forall>q\<in>set ps2. last_of (lastUsed ?s) v' \<le> last_of (lastUsed ?s) q"
    by blast
  from sc(1) vk(1) have vv: "v' = v" by (simp add: selected_def)
  from distinct_split_index [OF view(3) sc(2) vk(2)] vk(3) vv have k: "k = length ps1" by simp
  from assms(4) have le: "i \<le> length pages" by simp
  note lu = lru_lastUsed [OF assms(3) le, rule_format]
  from sc(2) vv have vin: "v \<in> set (memory ?s)" by simp
  have a: "\<forall>q\<in>set (memory ?s). lastUse pages i v \<le> lastUse pages i q"
  proof
    fix q assume q: "q \<in> set (memory ?s)"
    with sc(2) have "q \<in> set ps1 \<or> q = v' \<or> q \<in> set ps2" by auto
    with sc(3,4) have "last_of (lastUsed ?s) v' \<le> last_of (lastUsed ?s) q" by force
    with lu [OF q] lu [OF vin] vv show "lastUse pages i v \<le> lastUse pages i q" by simp
  qed
  have b: "\<forall>j<k. lastUse pages i v < lastUse pages i (memory ?s ! j)"
  proof (intro allI impI)
    fix j assume j: "j < k"
    with k sc(2) have at: "memory ?s ! j = ps1 ! j" by (simp add: nth_append)
    from j k have "ps1 ! j \<in> set ps1" by simp
    with sc(3) at have "last_of (lastUsed ?s) v' < last_of (lastUsed ?s) (memory ?s ! j)" by simp
    moreover from j vk(2) have "memory ?s ! j \<in> set (memory ?s)" by simp
    ultimately show "lastUse pages i v < lastUse pages i (memory ?s ! j)"
      using lu [of "memory ?s ! j"] lu [OF vin] vv by simp
  qed
  from resident_accessed [OF rec assms(3) le] vin have "v \<in> set (take i pages)" by blast
  hence c: "0 \<le> lastUse pages i v" by (rule lastUse_nonneg)
  from assms(6) vk(2) have kC: "int k < C" unfolding bef by simp
  from vk a b c kC have "0 \<le> replacedIndex (st pages C i) \<and> replacedIndex (st pages C i) < C
    \<and> info (st pages C i)
        = LRUReplaced (Some (prev pages C i ! nat (replacedIndex (st pages C i))))
    \<and> 0 \<le> lastUse pages i (prev pages C i ! nat (replacedIndex (st pages C i)))
    \<and> (\<forall>q\<in>set (prev pages C i).
          lastUse pages i (prev pages C i ! nat (replacedIndex (st pages C i)))
            \<le> lastUse pages i q)
    \<and> (\<forall>j<nat (replacedIndex (st pages C i)).
          lastUse pages i (prev pages C i ! nat (replacedIndex (st pages C i)))
            < lastUse pages i (prev pages C i ! j))"
    unfolding bef by (simp add: replaced_info_def)
  with frames show ?thesis unfolding st_def prev_def by blast
qed

theorem lru_evicts_least_recently_used_witness:
  "replacedIndex (steps (computeSteps [7, 0, 1, 2, 0, 3, 0, 4 :: int] 3 ''lru'') ! 5) = 2
   \<and> before (steps (computeSteps [7, 0, 1, 2, 0, 3, 0, 4 :: int] 3 ''lru'')) 5 = [2, 0, 1]
   \<and> info (steps (computeSteps [7, 0, 1, 2, 0, 3, 0, 4 :: int] 3 ''lru'') ! 5)
       = LRUReplaced (Some 1)
   \<and> lastUse [7, 0, 1, 2, 0, 3, 0, 4 :: int] 5 1 = 2
   \<and> lastUse [7, 0, 1, 2, 0, 3, 0, 4 :: int] 5 1 < lastUse [7, 0, 1, 2, 0, 3, 0, 4 :: int] 5 2
   \<and> lastUse [7, 0, 1, 2, 0, 3, 0, 4 :: int] 5 1 < lastUse [7, 0, 1, 2, 0, 3, 0, 4 :: int] 5 0
   \<and> memory_clone (steps (computeSteps [7, 0, 1, 2, 0, 3, 0, 4 :: int] 3 ''lru'') ! 5) = [2, 0, 3]
   \<and> 1 \<notin> set (memory_clone (steps (computeSteps [7, 0, 1, 2, 0, 3, 0, 4 :: int] 3 ''lru'') ! 5))"
proof -
  have h1: "(1::int) \<le> 3" by simp
  have h2: "(5::nat) < length [7, 0, 1, 2, 0, 3, 0, 4 :: int]" by simp
  have ev: "\<not> hit (steps (computeSteps [7, 0, 1, 2, 0, 3, 0, 4 :: int] 3 ''lru'') ! 5)
    \<and> before (steps (computeSteps [7, 0, 1, 2, 0, 3, 0, 4 :: int] 3 ''lru'')) 5 = [2, 0, 1]
    \<and> replacedIndex (steps (computeSteps [7, 0, 1, 2, 0, 3, 0, 4 :: int] 3 ''lru'') ! 5) = 2
    \<and> lastUse [7, 0, 1, 2, 0, 3, 0, 4 :: int] 5 1 = 2"
    by code_simp
  hence h3: "\<not> hit (steps (computeSteps [7, 0, 1, 2, 0, 3, 0, 4 :: int] 3 ''lru'') ! 5)"
    and h4: "int (length (before (steps (computeSteps [7, 0, 1, 2, 0, 3, 0, 4 :: int] 3 ''lru'')) 5)) = 3"
    by simp_all
  from lru_evicts_least_recently_used [OF h1 h2 h3 h4] ev show ?thesis
    by (simp add: numeral_2_eq_2 All_less_Suc)
qed

text \<open>
  C4: under optimal, a fault with all frames full evicts the resident page with the largest
  \<open>nextUse\<close>, a page that is never accessed again counting as the largest. When some resident
  page is never accessed again, the evicted one is the last such page in the order of the
  frames; otherwise it is the page whose next access is farthest away. So the evicted page's
  next use is never sooner than that of another resident page when both are finite.
\<close>

theorem optimal_evicts_farthest_next_use:
  fixes pages :: "'a list"
  defines "st \<equiv> \<lambda>pages C i. steps (computeSteps pages C ''optimal'') ! i"
  defines "prev \<equiv> \<lambda>pages C i. before (steps (computeSteps pages C ''optimal'')) i"
  assumes "1 \<le> C" and "i < length pages"
    and "\<not> hit (st pages C i)" and "int (length (prev pages C i)) = C"
  shows "0 \<le> replacedIndex (st pages C i) \<and> replacedIndex (st pages C i) < C
    \<and> info (st pages C i)
        = OptimalReplaced (Some (prev pages C i ! nat (replacedIndex (st pages C i))))
    \<and> ((\<exists>q\<in>set (prev pages C i). nextUse pages i q = None) \<longrightarrow>
          nextUse pages i (prev pages C i ! nat (replacedIndex (st pages C i))) = None
          \<and> (\<forall>j. nat (replacedIndex (st pages C i)) < j \<and> j < length (prev pages C i)
                \<longrightarrow> nextUse pages i (prev pages C i ! j) \<noteq> None))
    \<and> ((\<forall>q\<in>set (prev pages C i). nextUse pages i q \<noteq> None) \<longrightarrow>
          (\<exists>a. nextUse pages i (prev pages C i ! nat (replacedIndex (st pages C i))) = Some a
             \<and> (\<forall>q\<in>set (prev pages C i). \<exists>b. nextUse pages i q = Some b \<and> b \<le> a)))
    \<and> (\<forall>q\<in>set (prev pages C i). \<forall>a b.
          nextUse pages i (prev pages C i ! nat (replacedIndex (st pages C i))) = Some a
          \<and> nextUse pages i q = Some b \<longrightarrow> b \<le> a)
    \<and> memory_clone (st pages C i)
        = (prev pages C i)[nat (replacedIndex (st pages C i)) := pages ! i]
    \<and> prev pages C i ! nat (replacedIndex (st pages C i)) \<notin> set (memory_clone (st pages C i))
    \<and> pages ! i \<in> set (memory_clone (st pages C i))"
proof -
  let ?s = "run pages C ''optimal'' i"
  let ?f = "drop (i + 1) pages"
  have rec: "recognized ''optimal''" by (simp add: recognized_def)
  note view = full_fault_view [OF rec assms(3,4) assms(5,6) [unfolded st_def prev_def]]
  note frames = full_fault_frames [OF rec assms(3,4) assms(5,6) [unfolded st_def prev_def]]
  from view(1) obtain v k where vk: "selected pages ''optimal'' i ?s = Some v"
    "k < length (memory ?s)" "memory ?s ! k = v"
    "replacedIndex (st pages C i) = int k"
    "info (st pages C i) = replaced_info ''optimal'' (Some v)"
    unfolding st_def by blast
  have bef: "prev pages C i = memory ?s" unfolding prev_def by (rule view(2))
  from vk(1) have sel: "snd (optimal_scan ?f (memory ?s) (Num (- 1), None)) = Some v"
    by (simp add: selected_def)
  from assms(6) vk(2) have kC: "int k < C" unfolding bef by simp
  have dead: "(\<exists>q\<in>set (memory ?s). nextUse pages i q = None) \<longrightarrow>
          nextUse pages i v = None
          \<and> (\<forall>j. k < j \<and> j < length (memory ?s) \<longrightarrow> nextUse pages i (memory ?s ! j) \<noteq> None)"
  proof
    assume "\<exists>q\<in>set (memory ?s). nextUse pages i q = None"
    hence "\<exists>q\<in>set (memory ?s). q \<notin> set ?f" by (simp add: nextUse_None)
    from optimal_scan_dead_last [OF this] obtain ms1 d ms2 where
      d: "memory ?s = ms1 @ d # ms2" "d \<notin> set ?f" "\<forall>q\<in>set ms2. q \<in> set ?f"
      "optimal_scan ?f (memory ?s) (Num (- 1), None) = (Infinity, Some d)"
      by blast
    from d(4) sel have dv: "d = v" by simp
    from distinct_split_index [OF view(3) d(1) vk(2)] vk(3) dv have k: "k = length ms1" by simp
    have "\<forall>j. k < j \<and> j < length (memory ?s) \<longrightarrow> nextUse pages i (memory ?s ! j) \<noteq> None"
    proof (intro allI impI)
      fix j assume j: "k < j \<and> j < length (memory ?s)"
      with k d(1) have "memory ?s ! j = ms2 ! (j - length ms1 - 1)" "j - length ms1 - 1 < length ms2"
        by (auto simp: nth_append nth_Cons')
      hence "memory ?s ! j \<in> set ms2" by simp
      with d(3) show "nextUse pages i (memory ?s ! j) \<noteq> None" by (simp add: nextUse_None)
    qed
    with d(2) dv show "nextUse pages i v = None
          \<and> (\<forall>j. k < j \<and> j < length (memory ?s) \<longrightarrow> nextUse pages i (memory ?s ! j) \<noteq> None)"
      by (simp add: nextUse_None)
  qed
  have live: "(\<forall>q\<in>set (memory ?s). nextUse pages i q \<noteq> None) \<longrightarrow>
          (\<exists>a. nextUse pages i v = Some a
             \<and> (\<forall>q\<in>set (memory ?s). \<exists>b. nextUse pages i q = Some b \<and> b \<le> a))"
  proof
    assume "\<forall>q\<in>set (memory ?s). nextUse pages i q \<noteq> None"
    hence all: "\<forall>q\<in>set (memory ?s). q \<in> set ?f" by (simp add: nextUse_None)
    from optimal_scan_live_init [OF view(4) all] obtain w where
      w: "w \<in> set (memory ?s)"
      "optimal_scan ?f (memory ?s) (Num (- 1), None) = (Num (js_indexOf ?f w), Some w)"
      "\<forall>q\<in>set (memory ?s). js_indexOf ?f q \<le> js_indexOf ?f w"
      by blast
    from w(2) sel have wv: "w = v" by simp
    from w(1) wv all have vf: "v \<in> set ?f" by simp
    have "\<forall>q\<in>set (memory ?s). \<exists>b. nextUse pages i q = Some b \<and> b \<le> nat (js_indexOf ?f v)"
    proof
      fix q assume q: "q \<in> set (memory ?s)"
      with all have qf: "q \<in> set ?f" by simp
      from w(3) q wv have "js_indexOf ?f q \<le> js_indexOf ?f v" by simp
      hence "nat (js_indexOf ?f q) \<le> nat (js_indexOf ?f v)" by (rule nat_mono)
      with nextUse_Some [OF qf]
      show "\<exists>b. nextUse pages i q = Some b \<and> b \<le> nat (js_indexOf ?f v)" by simp
    qed
    with nextUse_Some [OF vf]
    show "\<exists>a. nextUse pages i v = Some a
             \<and> (\<forall>q\<in>set (memory ?s). \<exists>b. nextUse pages i q = Some b \<and> b \<le> a)"
      by simp
  qed
  have fin: "\<forall>q\<in>set (memory ?s). \<forall>a b.
          nextUse pages i v = Some a \<and> nextUse pages i q = Some b \<longrightarrow> b \<le> a"
  proof (intro ballI allI impI)
    fix q a b
    assume q: "q \<in> set (memory ?s)"
      and ab: "nextUse pages i v = Some a \<and> nextUse pages i q = Some b"
    have "\<forall>q\<in>set (memory ?s). nextUse pages i q \<noteq> None"
    proof (rule ccontr)
      assume "\<not> (\<forall>q\<in>set (memory ?s). nextUse pages i q \<noteq> None)"
      hence "\<exists>q\<in>set (memory ?s). nextUse pages i q = None" by simp
      with dead have "nextUse pages i v = None" by blast
      with ab show False by simp
    qed
    with live obtain a' where "nextUse pages i v = Some a'"
      "\<forall>q\<in>set (memory ?s). \<exists>b. nextUse pages i q = Some b \<and> b \<le> a'"
      by blast
    with q ab show "b \<le> a" by force
  qed
  from vk(3,4,5) kC dead live fin
  have "0 \<le> replacedIndex (st pages C i) \<and> replacedIndex (st pages C i) < C
    \<and> info (st pages C i)
        = OptimalReplaced (Some (prev pages C i ! nat (replacedIndex (st pages C i))))
    \<and> ((\<exists>q\<in>set (prev pages C i). nextUse pages i q = None) \<longrightarrow>
          nextUse pages i (prev pages C i ! nat (replacedIndex (st pages C i))) = None
          \<and> (\<forall>j. nat (replacedIndex (st pages C i)) < j \<and> j < length (prev pages C i)
                \<longrightarrow> nextUse pages i (prev pages C i ! j) \<noteq> None))
    \<and> ((\<forall>q\<in>set (prev pages C i). nextUse pages i q \<noteq> None) \<longrightarrow>
          (\<exists>a. nextUse pages i (prev pages C i ! nat (replacedIndex (st pages C i))) = Some a
             \<and> (\<forall>q\<in>set (prev pages C i). \<exists>b. nextUse pages i q = Some b \<and> b \<le> a)))
    \<and> (\<forall>q\<in>set (prev pages C i). \<forall>a b.
          nextUse pages i (prev pages C i ! nat (replacedIndex (st pages C i))) = Some a
          \<and> nextUse pages i q = Some b \<longrightarrow> b \<le> a)"
    unfolding bef by (simp add: replaced_info_def)
  with frames show ?thesis unfolding st_def prev_def by blast
qed

theorem optimal_evicts_farthest_next_use_witness:
  "replacedIndex (steps (computeSteps [1, 2, 3, 4, 1, 2, 5 :: int] 4 ''optimal'') ! 6) = 3
   \<and> before (steps (computeSteps [1, 2, 3, 4, 1, 2, 5 :: int] 4 ''optimal'')) 6 = [1, 2, 3, 4]
   \<and> info (steps (computeSteps [1, 2, 3, 4, 1, 2, 5 :: int] 4 ''optimal'') ! 6)
       = OptimalReplaced (Some 4)
   \<and> nextUse [1, 2, 3, 4, 1, 2, 5 :: int] 6 1 = None
   \<and> nextUse [1, 2, 3, 4, 1, 2, 5 :: int] 6 4 = None
   \<and> memory_clone (steps (computeSteps [1, 2, 3, 4, 1, 2, 5 :: int] 4 ''optimal'') ! 6)
       = [1, 2, 3, 5]
   \<and> 4 \<notin> set (memory_clone (steps (computeSteps [1, 2, 3, 4, 1, 2, 5 :: int] 4 ''optimal'') ! 6))
   \<and> memory_clone (steps (computeSteps [1, 2, 3, 2, 1 :: int] 2 ''optimal'') ! 2) = [3, 2]
   \<and> replacedIndex (steps (computeSteps [1, 2, 3, 2, 1 :: int] 2 ''optimal'') ! 2) = 0
   \<and> before (steps (computeSteps [1, 2, 3, 2, 1 :: int] 2 ''optimal'')) 2 = [1, 2]
   \<and> info (steps (computeSteps [1, 2, 3, 2, 1 :: int] 2 ''optimal'') ! 2)
       = OptimalReplaced (Some 1)
   \<and> nextUse [1, 2, 3, 2, 1 :: int] 2 1 = Some 1
   \<and> nextUse [1, 2, 3, 2, 1 :: int] 2 2 = Some 0"
proof -
  have c: "(1::int) \<le> 4" "(1::int) \<le> 2" by simp_all
  have l: "(6::nat) < length [1, 2, 3, 4, 1, 2, 5 :: int]" "(2::nat) < length [1, 2, 3, 2, 1 :: int]"
    by simp_all
  have ev1: "\<not> hit (steps (computeSteps [1, 2, 3, 4, 1, 2, 5 :: int] 4 ''optimal'') ! 6)
    \<and> before (steps (computeSteps [1, 2, 3, 4, 1, 2, 5 :: int] 4 ''optimal'')) 6 = [1, 2, 3, 4]
    \<and> replacedIndex (steps (computeSteps [1, 2, 3, 4, 1, 2, 5 :: int] 4 ''optimal'') ! 6) = 3
    \<and> nextUse [1, 2, 3, 4, 1, 2, 5 :: int] 6 1 = None"
    by code_simp
  have ev2: "\<not> hit (steps (computeSteps [1, 2, 3, 2, 1 :: int] 2 ''optimal'') ! 2)
    \<and> before (steps (computeSteps [1, 2, 3, 2, 1 :: int] 2 ''optimal'')) 2 = [1, 2]
    \<and> replacedIndex (steps (computeSteps [1, 2, 3, 2, 1 :: int] 2 ''optimal'') ! 2) = 0
    \<and> nextUse [1, 2, 3, 2, 1 :: int] 2 1 = Some 1
    \<and> nextUse [1, 2, 3, 2, 1 :: int] 2 2 = Some 0"
    by code_simp
  from ev1 have a1: "\<not> hit (steps (computeSteps [1, 2, 3, 4, 1, 2, 5 :: int] 4 ''optimal'') ! 6)"
    and a2: "int (length (before (steps (computeSteps [1, 2, 3, 4, 1, 2, 5 :: int] 4 ''optimal'')) 6)) = 4"
    by simp_all
  from ev2 have b1: "\<not> hit (steps (computeSteps [1, 2, 3, 2, 1 :: int] 2 ''optimal'') ! 2)"
    and b2: "int (length (before (steps (computeSteps [1, 2, 3, 2, 1 :: int] 2 ''optimal'')) 2)) = 2"
    by simp_all
  from optimal_evicts_farthest_next_use [OF c(1) l(1) a1 a2]
       optimal_evicts_farthest_next_use [OF c(2) l(2) b1 b2] ev1 ev2
  show ?thesis by simp
qed




lemma hit_agrees:
  assumes "1 \<le> C" and "recognized algo" and "NaN \<notin> set pages" and "n < length pages"
  shows "(pages ! n \<in> set (memory (run pages C algo n)))
           = (pages ! n \<in> set (sim_memory (sim_run pages C algo n)))"
  using assms(2)
proof (cases rule: recognized_cases)
  case 1
  with fifo_residency_agrees [OF assms(1), of pages n] show ?thesis by simp
next
  case 2
  from assms(4) have "n \<le> length pages" by simp
  from lru_residency_agrees [OF assms(1,3) this] 2 show ?thesis by simp
next
  case 3
  with optimal_hit_agrees [OF assms(1,3,4)] show ?thesis by simp
qed

lemma run_unrecognized:
  assumes "\<not> recognized algo"
  shows "length (result (run pages C algo n)) \<le> n
       \<and> (\<forall>r\<in>set (result (run pages C algo n)). info r = Hit \<or> info r = PlacedIntoFreeSlot)"
proof (induction n)
  case 0
  show ?case by (simp add: init_def)
next
  case (Suc n)
  let ?s = "run pages C algo n"
  show ?case
  proof (cases "pages ! n \<in> set (memory ?s)")
    case True
    with Suc show ?thesis by (simp add: access_hit)
  next
    case notin: False
    show ?thesis
    proof (cases "int (length (memory ?s)) < C")
      case True
      with notin Suc show ?thesis by (simp add: access_free)
    next
      case False
      with notin assms Suc show ?thesis by (simp add: access_other)
    qed
  qed
qed

lemma clampFrames_finite: "clampFrames (Finite r) = Finite (of_int (max 1 \<lfloor>r\<rfloor>))"
proof -
  have "or_zero (Finite r) = Finite r" by (simp add: or_zero_def)
  hence "clampFrames (Finite r) = Finite (max 1 (of_int \<lfloor>r\<rfloor>))"
    by (simp add: clampFrames_def Math_floor_def)
  thus ?thesis by (simp add: max_def)
qed

lemma clampFrames_NaN: "clampFrames NotANumber = Finite 1"
  by (simp add: clampFrames_def or_zero_def Math_floor_def)

lemma clampFrames_at_least_1:
  "clampFrames x = PlusInfinity \<or> (\<exists>k. 1 \<le> k \<and> clampFrames x = Finite (of_int k))"
proof (cases x)
  case NotANumber
  have "(1::int) \<le> 1 \<and> clampFrames NotANumber = Finite (of_int 1)"
    by (simp add: clampFrames_NaN)
  with NotANumber show ?thesis by blast
next
  case (Finite r)
  have "(1::int) \<le> max 1 \<lfloor>r\<rfloor> \<and> clampFrames (Finite r) = Finite (of_int (max 1 \<lfloor>r\<rfloor>))"
    by (simp add: clampFrames_finite)
  with Finite show ?thesis by blast
next
  case PlusInfinity
  thus ?thesis by (simp add: clampFrames_def or_zero_def Math_floor_def)
next
  case MinusInfinity
  have "(1::int) \<le> 1 \<and> clampFrames MinusInfinity = Finite (of_int 1)"
    by (simp add: clampFrames_def or_zero_def Math_floor_def)
  with MinusInfinity show ?thesis by blast
qed

section \<open>The earlier version computes the same hits and faults, unless a page is \<^verbatim>\<open>NaN\<close>\<close>

text \<open>
  C10, as stated: for every pages sequence, every capacity at least 1 and every algorithm
  among fifo, lru and optimal, computeSteps and the loop of simulate classify every access
  alike and count the same faults. With a \<^verbatim>\<open>NaN\<close> page, which simulate gets from a token that
  is not a number, they do not: on 1 NaN 2 1 with two frames under lru, simulate looks for
  the last use of \<^verbatim>\<open>NaN\<close> with \<^verbatim>\<open>lastIndexOf\<close>, finds none, removes \<^verbatim>\<open>NaN\<close> and then hits on
  page 1, while computeSteps finds the timestamp of \<^verbatim>\<open>NaN\<close> in its \<^verbatim>\<open>Map\<close>, replaces page 1
  and then faults on it.
\<close>

theorem simulate_differs_on_NaN_counterexample:
  "map hit (steps (computeSteps_strict [Val 1, NaN, Val 2, Val 1 :: int page] 2 ''lru''))
     = [False, False, False, False]
   \<and> map shown_hit (rendered_steps (simulate [Val 1, NaN, Val 2, Val 1 :: int page] 2 ''lru''))
     = [False, False, False, True]
   \<and> totals_faults (computeSteps_strict [Val 1, NaN, Val 2, Val 1 :: int page] 2 ''lru'') = 4
   \<and> sim_faults (simulate [Val 1, NaN, Val 2, Val 1 :: int page] 2 ''lru'') = 3"
  by code_simp

text \<open>
  C10, amended: for every pages sequence without \<^verbatim>\<open>NaN\<close>, every capacity at least 1 and every
  algorithm among fifo, lru and optimal, computeSteps and the loop of simulate classify every
  access alike as hit or fault and count the same number of faults. (The frames themselves
  can differ: simulate removes the victim and pushes the new page at the end, and under
  optimal it takes the first never-reappearing page where computeSteps takes the last.) On
  such pages strict and plain \<^verbatim>\<open>indexOf\<close> give the same computeSteps.
\<close>

theorem computeSteps_agrees_with_simulate:
  assumes "1 \<le> C" and "recognized algo" and "NaN \<notin> set pages"
  shows "map hit (steps (computeSteps_strict pages C algo))
           = map shown_hit (rendered_steps (simulate pages C algo))
       \<and> map page (steps (computeSteps_strict pages C algo))
           = map shown_page (rendered_steps (simulate pages C algo))
       \<and> totals_faults (computeSteps_strict pages C algo) = sim_faults (simulate pages C algo)
       \<and> computeSteps_strict pages C algo = computeSteps pages C algo"
proof -
  have ag: "\<And>n. n < length pages \<Longrightarrow>
           (pages ! n \<in> set (memory (run pages C algo n)))
             = (pages ! n \<in> set (sim_memory (sim_run pages C algo n)))"
    by (rule hit_agrees [OF assms])
  have "length pages \<le> length pages" by simp
  from observed_agree [OF assms(2) ag this] computeSteps_strict_eq [OF assms(3), of C algo]
  show ?thesis
    by (simp add: computeSteps_run simulate_run)
qed

theorem computeSteps_agrees_with_simulate_witness:
  "map shown_hit (rendered_steps
       (simulate [Val 1, Val 2, Val 3, Val 4, Val 1, Val 2, Val 5, Val 3 :: int page] 4 ''optimal''))
     = [False, False, False, False, True, True, False, True]
   \<and> sim_faults
       (simulate [Val 1, Val 2, Val 3, Val 4, Val 1, Val 2, Val 5, Val 3 :: int page] 4 ''optimal'')
     = 5
   \<and> memory_clone (steps
       (computeSteps_strict [Val 1, Val 2, Val 3, Val 4, Val 1, Val 2, Val 5, Val 3 :: int page]
          4 ''optimal'') ! 6)
     = [Val 1, Val 2, Val 3, Val 5]
   \<and> shown_memory (rendered_steps
       (simulate [Val 1, Val 2, Val 3, Val 4, Val 1, Val 2, Val 5, Val 3 :: int page] 4 ''optimal'')
          ! 6)
     = [Val 2, Val 3, Val 4, Val 5]"
proof -
  have h1: "(1::int) \<le> 4" by simp
  have h2: "recognized ''optimal''" by (simp add: recognized_def)
  have h3: "NaN \<notin> set [Val 1, Val 2, Val 3, Val 4, Val 1, Val 2, Val 5, Val 3 :: int page]"
    by simp
  have ev: "map hit (steps
        (computeSteps_strict [Val 1, Val 2, Val 3, Val 4, Val 1, Val 2, Val 5, Val 3 :: int page]
           4 ''optimal''))
      = [False, False, False, False, True, True, False, True]
    \<and> totals_faults
        (computeSteps_strict [Val 1, Val 2, Val 3, Val 4, Val 1, Val 2, Val 5, Val 3 :: int page]
           4 ''optimal'') = 5
    \<and> memory_clone (steps
       (computeSteps_strict [Val 1, Val 2, Val 3, Val 4, Val 1, Val 2, Val 5, Val 3 :: int page]
          4 ''optimal'') ! 6)
     = [Val 1, Val 2, Val 3, Val 5]
    \<and> shown_memory (rendered_steps
       (simulate [Val 1, Val 2, Val 3, Val 4, Val 1, Val 2, Val 5, Val 3 :: int page] 4 ''optimal'')
          ! 6)
     = [Val 2, Val 3, Val 4, Val 5]"
    by code_simp
  from computeSteps_agrees_with_simulate [OF h1 h2 h3] ev
  show ?thesis by simp
qed

section \<open>Capacities below 1 and unknown selectors\<close>

text \<open>
  C6, as stated: the simulator fails with an InvalidCapacity error when the capacity is below
  1 and with an UnknownAlgorithm error when the selector is none of fifo, lru, optimal, and
  returns no degraded or partial result. The code rejects nothing. With capacity 0 it returns
  a full result, whose first fault finds no free slot and replaces a page that is not there
  (\<^verbatim>\<open>replacedIndex\<close> \<open>-1\<close>); with an unknown selector it returns a result with one step
  record for two counted faults.
\<close>

theorem no_rejection_counterexample:
  "computeSteps [7, 8 :: int] 0 ''fifo''
     = \<lparr> steps =
           [\<lparr> index = 0, page = 7, memory_clone = [7], hit = False,
              replacedIndex = - 1, info = FIFOReplaced None \<rparr>,
            \<lparr> index = 1, page = 8, memory_clone = [8], hit = False,
              replacedIndex = 0, info = FIFOReplaced (Some 7) \<rparr>],
         totals_faults = 2, totals_hits = 0 \<rparr>
   \<and> computeSteps [7, 8 :: int] 1 ''clock''
     = \<lparr> steps =
           [\<lparr> index = 0, page = 7, memory_clone = [7], hit = False,
              replacedIndex = 0, info = PlacedIntoFreeSlot \<rparr>],
         totals_faults = 2, totals_hits = 0 \<rparr>"
  by code_simp

text \<open>
  C6, amended: the simulator has no error results. A capacity below 1 never reaches
  computeSteps from the page: whatever number the field holds, \<^verbatim>\<open>clampFrames\<close> returns an
  integer that is at least 1, or \<^verbatim>\<open>Infinity\<close>. And computeSteps itself returns a result for
  every integer capacity and every selector, with faults + hits = length(pages) and at most
  length(pages) step records: exactly length(pages) under fifo, lru and optimal, for every
  such capacity; under any other selector every record is a hit or a fault that filled a
  free slot.
\<close>

theorem computeSteps_rejects_nothing:
  "(clampFrames x = PlusInfinity \<or> (\<exists>k. 1 \<le> k \<and> clampFrames x = Finite (of_int k)))
   \<and> totals_faults (computeSteps pages C algo) + totals_hits (computeSteps pages C algo)
       = length pages
   \<and> length (steps (computeSteps pages C algo)) \<le> length pages
   \<and> (recognized algo \<longrightarrow> length (steps (computeSteps pages C algo)) = length pages)
   \<and> (\<not> recognized algo \<longrightarrow>
        (\<forall>r\<in>set (steps (computeSteps pages C algo)). info r = Hit \<or> info r = PlacedIntoFreeSlot))"
proof -
  have a: "clampFrames x = PlusInfinity \<or> (\<exists>k. 1 \<le> k \<and> clampFrames x = Finite (of_int k))"
    by (rule clampFrames_at_least_1)
  have b: "totals_faults (computeSteps pages C algo) + totals_hits (computeSteps pages C algo)
       = length pages"
    by (simp add: computeSteps_run run_counters)
  have c: "recognized algo \<longrightarrow> length (steps (computeSteps pages C algo)) = length pages"
    by (simp add: computeSteps_run run_result_length)
  have d: "\<not> recognized algo \<longrightarrow>
        length (steps (computeSteps pages C algo)) \<le> length pages
        \<and> (\<forall>r\<in>set (steps (computeSteps pages C algo)). info r = Hit \<or> info r = PlacedIntoFreeSlot)"
    using run_unrecognized [of algo pages C "length pages"] by (simp add: computeSteps_run)
  from c d have e: "length (steps (computeSteps pages C algo)) \<le> length pages"
    by (cases "recognized algo") simp_all
  from a b c d e show ?thesis by blast
qed

theorem computeSteps_rejects_nothing_witness:
  "clampFrames (Finite 0) = Finite 1 \<and> clampFrames (Finite (27 / 10)) = Finite 2
   \<and> clampFrames NotANumber = Finite 1 \<and> clampFrames (Finite (- 3)) = Finite 1
   \<and> totals_faults (computeSteps [7, 8 :: int] 1 ''clock'')
       + totals_hits (computeSteps [7, 8 :: int] 1 ''clock'') = 2
   \<and> length (steps (computeSteps [7, 8 :: int] 0 ''lru'')) = 2
   \<and> steps (computeSteps [7, 8 :: int] 1 ''clock'')
       = [\<lparr> index = 0, page = 7, memory_clone = [7], hit = False,
            replacedIndex = 0, info = PlacedIntoFreeSlot \<rparr>]
   \<and> info (hd (steps (computeSteps [7, 8 :: int] 1 ''clock''))) = PlacedIntoFreeSlot"
proof -
  have h2: "\<not> recognized ''clock''" "recognized ''lru''" by (simp_all add: recognized_def)
  have cl: "clampFrames (Finite 0) = Finite 1 \<and> clampFrames (Finite (27 / 10)) = Finite 2
    \<and> clampFrames NotANumber = Finite 1 \<and> clampFrames (Finite (- 3)) = Finite 1"
    by (simp add: clampFrames_finite clampFrames_NaN)
  have ev: "steps (computeSteps [7, 8 :: int] 1 ''clock'')
       = [\<lparr> index = 0, page = 7, memory_clone = [7], hit = False,
            replacedIndex = 0, info = PlacedIntoFreeSlot \<rparr>]"
    by code_simp
  from computeSteps_rejects_nothing [of "Finite 0" "[7, 8 :: int]" 1 "''clock''"]
       computeSteps_rejects_nothing [of "Finite 0" "[7, 8 :: int]" 0 "''lru''"] h2 cl ev
  show ?thesis by simp
qed


section \<open>Scenario 1: the reference string 7 0 1 2 0 3 0 4 with three frames under FIFO\<close>

text \<open>
  C9, as stated: on pages 7 0 1 2 0 3 0 4 with capacity 3 and algorithm fifo, the totals are
  6 faults and 2 hits. The code gives other totals: the second access to page 0 at index 6
  comes after FIFO evicted page 0 at index 5, so it is a fault.
\<close>

theorem scenario1_fifo_totals_counterexample:
  "\<not> (totals_faults (computeSteps [7, 0, 1, 2, 0, 3, 0, 4 :: int] 3 ''fifo'') = 6
      \<and> totals_hits (computeSteps [7, 0, 1, 2, 0, 3, 0, 4 :: int] 3 ''fifo'') = 2)"
  by code_simp

text \<open>
  C9, amended: on pages 7 0 1 2 0 3 0 4 with capacity 3 and algorithm fifo, computeSteps
  yields 7 faults and 1 hit, and the step for page 2 (index 3) evicts page 7, which was in
  slot 0 of the frames before that access.
\<close>

theorem scenario1_fifo:
  "totals_faults (computeSteps [7, 0, 1, 2, 0, 3, 0, 4 :: int] 3 ''fifo'') = 7
   \<and> totals_hits (computeSteps [7, 0, 1, 2, 0, 3, 0, 4 :: int] 3 ''fifo'') = 1
   \<and> page (steps (computeSteps [7, 0, 1, 2, 0, 3, 0, 4 :: int] 3 ''fifo'') ! 3) = 2
   \<and> info (steps (computeSteps [7, 0, 1, 2, 0, 3, 0, 4 :: int] 3 ''fifo'') ! 3)
       = FIFOReplaced (Some 7)
   \<and> replacedIndex (steps (computeSteps [7, 0, 1, 2, 0, 3, 0, 4 :: int] 3 ''fifo'') ! 3) = 0
   \<and> before (steps (computeSteps [7, 0, 1, 2, 0, 3, 0, 4 :: int] 3 ''fifo'')) 3 = [7, 0, 1]
   \<and> memory_clone (steps (computeSteps [7, 0, 1, 2, 0, 3, 0, 4 :: int] 3 ''fifo'') ! 3)
       = [2, 0, 1]"
  by code_simp

end
